theory Spec2Isabelle
  imports Main "HOL-Library.Word" "HOL-Library.Code_Target_Numeral"
begin

unbundle bit_operations_syntax

section \<open>The configuration language of lib/config/config.c\<close>

subsection \<open>Characters and C strings\<close>

text \<open>
  A C string is modelled by the list of its characters before the terminating NUL, so
  the test \<^verbatim>\<open>*s\<close> of the source is \<open>s \<noteq> []\<close>. A pointer into the mapped file is an
  offset from \<^verbatim>\<open>fb\<close>; the file's bytes are the list \<open>fb\<close> and \<^verbatim>\<open>fe\<close> is its length.
\<close>

definition NUL :: char where "NUL = CHR 0x00"
definition NL :: char where "NL = CHR 0x0A"
definition DQ :: char where "DQ = CHR 0x22"
definition BS :: char where "BS = CHR 0x5C"

definition isspace :: "char \<Rightarrow> bool" where
  \<comment> \<open>\<^verbatim>\<open>isspace\<close> of the C locale: space, and the controls 9 to 13.\<close>
  "isspace c = (c = CHR 0x20 \<or> c = CHR 0x09 \<or> c = CHR 0x0A \<or> c = CHR 0x0B
                \<or> c = CHR 0x0C \<or> c = CHR 0x0D)"

definition isdigit :: "char \<Rightarrow> bool" where
  "isdigit c = (48 \<le> (of_char c :: nat) \<and> (of_char c :: nat) \<le> 57)"

subsection \<open>Tokens, the parser state, the tree\<close>

datatype token =
    TOK_INT | TOK_FLOAT | TOK_STRING | TOK_EQ | TOK_SECTION_B | TOK_SECTION_E
  | TOK_ARRAY_B | TOK_ARRAY_E | TOK_IDENTIFIER | TOK_COMMA | TOK_EOF

record parser =
  fb :: string  \<comment> \<open>the mapped file, \<^verbatim>\<open>[fb, fe)\<close>\<close>
  t :: token
  tb :: nat
  te :: nat
  line :: nat

definition fe :: "parser \<Rightarrow> nat" where
  "fe p = length (fb p)"

text \<open>
  \<^verbatim>\<open>config.h\<close> is not among the sources. From their uses here, a value is a tagged
  union of an \<^verbatim>\<open>int\<close> (printed with \<^verbatim>\<open>%d\<close>, returned by \<^verbatim>\<open>find_config_int\<close>), a
  float and a string, chained by \<^verbatim>\<open>next\<close>; a node has \<^verbatim>\<open>key\<close>, \<^verbatim>\<open>v\<close>, \<^verbatim>\<open>child\<close> and
  \<^verbatim>\<open>sib\<close>. A pointer to a chain is the list of its cells (NULL is \<open>[]\<close>): a
  \<^verbatim>\<open>config_value *\<close> is a \<open>config_value list\<close>, and a \<^verbatim>\<open>config_node *\<close> is a
  \<open>config_node list\<close> whose tail is the \<^verbatim>\<open>sib\<close> chain. The float type is the parameter
  \<open>'r\<close>: the program only moves floats between \<^verbatim>\<open>strtod\<close>, the tree and \<^verbatim>\<open>printf\<close>.
\<close>

datatype 'r config_value = CFG_INT "32 word" | CFG_FLOAT 'r | CFG_STRING string

datatype 'r config_node =
  Node (key: string) (child: "'r config_node list") (v: "'r config_value list")

text \<open>
  What a failing call reports. The first two are the two \<^verbatim>\<open>log_error\<close> messages, with
  the line they print. \<open>Null_result\<close> is a NULL that a caller takes for a failure
  though nothing was logged. \<open>Negative_length\<close> is \<^verbatim>\<open>_dup_tok\<close> reached with
  \<^verbatim>\<open>te < tb\<close> (its \<^verbatim>\<open>strncpy\<close> is then undefined), \<open>Null_dereference\<close> a read through a
  NULL pointer, \<open>Read_past_mapping\<close> a read of the byte behind the last page of the
  mapped file. \<open>Out_of_fuel\<close> belongs to the model only.
\<close>

datatype error =
    Unexpected_token nat | Expected_value nat | Null_result
  | Negative_length | Null_dereference | Read_past_mapping | Out_of_fuel

subsection \<open>The tokeniser\<close>

function skip_comment :: "string \<Rightarrow> nat \<Rightarrow> nat" where
  "skip_comment b i =
     (if i < length b \<and> b ! i \<noteq> NL then skip_comment b (Suc i) else i)"
  by pat_completeness auto
termination
  by (relation "measure (\<lambda>(b, i). length b - i)") auto

declare skip_comment.simps [simp del]

function skip_space :: "string \<Rightarrow> nat \<Rightarrow> nat \<Rightarrow> nat \<times> nat" where
  "skip_space b i ln =
     (if i < length b \<and> isspace (b ! i)
      then skip_space b (Suc i) (if b ! i = NL then ln + 1 else ln)
      else (i, ln))"
  by pat_completeness auto
termination
  by (relation "measure (\<lambda>(b, i, ln). length b - i)") auto

declare skip_space.simps [simp del]

lemma skip_comment_ge: "i \<le> skip_comment b i"
proof (induction b i rule: skip_comment.induct)
  case (1 b i)
  then show ?case by (subst skip_comment.simps) auto
qed

lemma skip_comment_le: "i \<le> length b \<Longrightarrow> skip_comment b i \<le> length b"
proof (induction b i rule: skip_comment.induct)
  case (1 b i)
  then show ?case by (subst skip_comment.simps) auto
qed

lemma skip_space_ge: "i \<le> fst (skip_space b i ln)"
proof (induction b i ln rule: skip_space.induct)
  case (1 b i ln)
  then show ?case by (subst skip_space.simps) (auto simp del: One_nat_def)
qed

lemma skip_space_le: "i \<le> length b \<Longrightarrow> fst (skip_space b i ln) \<le> length b"
proof (induction b i ln rule: skip_space.induct)
  case (1 b i ln)
  then show ?case by (subst skip_space.simps) (auto simp del: One_nat_def)
qed

lemma skip_comment_gt:
  "i < length b \<Longrightarrow> b ! i \<noteq> NL \<Longrightarrow> i < skip_comment b i"
  using skip_comment_ge [of "Suc i" b] by (subst skip_comment.simps) simp

lemma skip_space_gt:
  "i < length b \<Longrightarrow> isspace (b ! i) \<Longrightarrow> i < fst (skip_space b i ln)"
  using skip_space_ge [of "Suc i" b "if b ! i = NL then ln + 1 else ln"]
  by (subst skip_space.simps) simp

text \<open>
  \<^verbatim>\<open>_eat_space\<close> is entered from \<^verbatim>\<open>_get_token\<close> with \<^verbatim>\<open>tb = te\<close> and sets
  \<^verbatim>\<open>tb = te\<close> again after each round, so one offset stands for both. It returns the
  offset and the line counter.
\<close>

function eat_space :: "string \<Rightarrow> nat \<Rightarrow> nat \<Rightarrow> nat \<times> nat" where
  "eat_space b i ln =
     (if i < length b then
        if b ! i = CHR ''#'' then eat_space b (skip_comment b i) (ln + 1)
        else if isspace (b ! i) then
          eat_space b (fst (skip_space b i ln)) (snd (skip_space b i ln))
        else (i, ln)
      else (i, ln))"
  by pat_completeness auto
termination
proof (relation "measure (\<lambda>(b, i, ln). length b - i)", goal_cases)
  case 1
  show ?case by simp
next
  case (2 b i ln)
  then have "i < skip_comment b i"
    by (intro skip_comment_gt) (auto simp: NL_def)
  with 2 show ?case by simp
next
  case (3 b i ln)
  then have "i < fst (skip_space b i ln)"
    by (intro skip_space_gt) auto
  with 3 show ?case by (simp add: case_prod_beta)
qed

declare eat_space.simps [simp del]

function scan_string :: "string \<Rightarrow> nat \<Rightarrow> nat" where
  "scan_string b i =
     (if i < length b \<and> b ! i \<noteq> DQ
      then scan_string b (if b ! i = BS \<and> Suc i \<noteq> length b then Suc (Suc i) else Suc i)
      else i)"
  by pat_completeness auto
termination
  by (relation "measure (\<lambda>(b, i). length b - i)") auto

declare scan_string.simps [simp del]

function scan_number :: "string \<Rightarrow> nat \<Rightarrow> token \<Rightarrow> nat \<times> token" where
  "scan_number b i tk =
     (if i < length b then
        if b ! i = CHR ''.'' then
          (if tk = TOK_FLOAT then (i, tk) else scan_number b (Suc i) TOK_FLOAT)
        else if \<not> isdigit (b ! i) then (i, tk)
        else scan_number b (Suc i) tk
      else (i, tk))"
  by pat_completeness auto
termination
  by (relation "measure (\<lambda>(b, i, tk). length b - i)") auto

declare scan_number.simps [simp del]

function scan_ident :: "string \<Rightarrow> nat \<Rightarrow> nat" where
  "scan_ident b i =
     (if i < length b \<and> \<not> isspace (b ! i) \<and> b ! i \<noteq> CHR ''#'' \<and> b ! i \<noteq> CHR ''=''
      then scan_ident b (Suc i) else i)"
  by pat_completeness auto
termination
  by (relation "measure (\<lambda>(b, i). length b - i)") auto

declare scan_ident.simps [simp del]

definition get_token :: "parser \<Rightarrow> parser" where
  "get_token p =
     (let b = fb p;
          i = fst (eat_space b (te p) (line p));
          q = p\<lparr>tb := i, te := i, line := snd (eat_space b (te p) (line p))\<rparr>
      in if \<not> i < length b then q\<lparr>t := TOK_EOF\<rparr>
         else if b ! i = CHR ''{'' then q\<lparr>t := TOK_SECTION_B, te := Suc i\<rparr>
         else if b ! i = CHR ''}'' then q\<lparr>t := TOK_SECTION_E, te := Suc i\<rparr>
         else if b ! i = CHR ''['' then q\<lparr>t := TOK_ARRAY_B, te := Suc i\<rparr>
         else if b ! i = CHR '']'' then q\<lparr>t := TOK_ARRAY_E, te := Suc i\<rparr>
         else if b ! i = CHR '','' then q\<lparr>t := TOK_COMMA, te := Suc i\<rparr>
         else if b ! i = CHR ''='' then q\<lparr>t := TOK_EQ, te := Suc i\<rparr>
         else if b ! i = DQ then
           (let j = scan_string b (Suc i)
            in q\<lparr>t := TOK_STRING, te := (if j \<noteq> length b then Suc j else j)\<rparr>)
         else if b ! i = CHR ''.'' then
           q\<lparr>t := snd (scan_number b (Suc i) TOK_FLOAT),
              te := fst (scan_number b (Suc i) TOK_FLOAT)\<rparr>
         else if isdigit (b ! i) then
           q\<lparr>t := snd (scan_number b (Suc i) TOK_INT),
              te := fst (scan_number b (Suc i) TOK_INT)\<rparr>
         else q\<lparr>t := TOK_IDENTIFIER, te := scan_ident b i\<rparr>)"

subsection \<open>The parser\<close>

definition match :: "parser \<Rightarrow> token \<Rightarrow> error + parser" where
  \<comment> \<open>the macro \<^verbatim>\<open>match\<close> around \<^verbatim>\<open>_match_aux\<close>\<close>
  "match p tk = (if t p \<noteq> tk then Inl (Unexpected_token (line p)) else Inr (get_token p))"

definition dup_tok :: "parser \<Rightarrow> error + string" where
  \<comment> \<open>\<^verbatim>\<open>strncpy\<close> stops at a NUL among the \<^verbatim>\<open>len\<close> bytes; the pool is taken to have room\<close>
  "dup_tok p =
     (if te p < tb p then Inl Negative_length
      else Inr (takeWhile (\<lambda>c. c \<noteq> NUL) (take (te p - tb p) (drop (tb p) (fb p)))))"

definition digit_val :: "char \<Rightarrow> nat" where
  "digit_val c = of_char c - 48"

definition LONG_MAX :: int where
  \<comment> \<open>a 64-bit \<^verbatim>\<open>long\<close>\<close>
  "LONG_MAX = 2 ^ 63 - 1"

definition strtol :: "string \<Rightarrow> int" where
  \<comment> \<open>\<^verbatim>\<open>strtol(s, 0, 10)\<close>: blanks, a sign, the digits; out of range gives the nearest bound\<close>
  "strtol s =
     (let s1 = dropWhile isspace s;
          neg = (s1 \<noteq> [] \<and> hd s1 = CHR ''-'');
          s2 = (if s1 \<noteq> [] \<and> (hd s1 = CHR ''-'' \<or> hd s1 = CHR ''+'') then tl s1 else s1);
          n = int (foldl (\<lambda>a c. 10 * a + digit_val c) 0 (takeWhile isdigit s2))
      in if neg then max (- n) (- LONG_MAX - 1) else min n LONG_MAX)"

definition strtol_past :: "string \<Rightarrow> bool" where
  \<comment> \<open>\<^verbatim>\<open>strtol\<close> takes every byte of \<open>s\<close> and goes on to read the byte behind it\<close>
  "strtol_past s =
     (let s1 = dropWhile isspace s;
          s2 = (if s1 \<noteq> [] \<and> (hd s1 = CHR ''-'' \<or> hd s1 = CHR ''+'') then tl s1 else s1)
      in list_all isdigit s2)"

text \<open>
  \<^verbatim>\<open>strtol\<close> and \<^verbatim>\<open>strtod\<close> are given \<^verbatim>\<open>p->tb\<close> alone: they read on behind \<^verbatim>\<open>te\<close> and
  behind \<^verbatim>\<open>fe\<close>, up to the first byte that cannot continue a number. \<^verbatim>\<open>mmap\<close> maps whole
  pages and fills the last one with zero bytes behind the end of the file, so what
  can be read from \<^verbatim>\<open>tb\<close> is the rest of the file and that fill; there is no fill when the
  size of the file is a multiple of the page size. The page is taken to have 4096
  bytes. Of the fill the model keeps the first byte: no conversion reads behind a zero
  byte.
\<close>

definition PAGE_SIZE :: nat where
  "PAGE_SIZE = 4096"

definition readable :: "parser \<Rightarrow> string" where
  "readable p =
     drop (tb p) (fb p) @ (if length (fb p) mod PAGE_SIZE = 0 then [] else [NUL])"

text \<open>
  \<^verbatim>\<open>_type\<close>. \<^verbatim>\<open>strtod\<close> is the parameter \<open>sd\<close>, on the readable bytes; it gives \<open>None\<close>
  where it goes on to read the byte behind them, as \<open>strtol_past\<close> tells of \<^verbatim>\<open>strtol\<close>.
  The \<^verbatim>\<open>long\<close> is stored into the \<^verbatim>\<open>int\<close> field by truncation to 32 bits.
\<close>

definition type' :: "(string \<Rightarrow> 'r option) \<Rightarrow> parser \<Rightarrow> error + ('r config_value \<times> parser)" where
  "type' sd p =
     (case t p of
        TOK_INT \<Rightarrow>
          if strtol_past (readable p) then Inl Read_past_mapping
          else
            (case match p TOK_INT of
               Inl e \<Rightarrow> Inl e
             | Inr p1 \<Rightarrow> Inr (CFG_INT (word_of_int (strtol (readable p))), p1))
      | TOK_FLOAT \<Rightarrow>
          (case sd (readable p) of
             None \<Rightarrow> Inl Read_past_mapping
           | Some r \<Rightarrow>
               (case match p TOK_FLOAT of
                  Inl e \<Rightarrow> Inl e
                | Inr p1 \<Rightarrow> Inr (CFG_FLOAT r, p1)))
      | TOK_STRING \<Rightarrow>
          (let q = p\<lparr>tb := tb p + 1, te := te p - 1\<rparr>
           in case dup_tok q of
                Inl e \<Rightarrow> Inl e
              | Inr s \<Rightarrow>
                  (case match (q\<lparr>te := te q + 1\<rparr>) TOK_STRING of
                     Inl e \<Rightarrow> Inl e
                   | Inr p1 \<Rightarrow> Inr (CFG_STRING s, p1)))
      | _ \<Rightarrow> Inl (Expected_value (line p)))"

text \<open>
  The loops of \<^verbatim>\<open>_value\<close>, \<^verbatim>\<open>_section\<close> and \<^verbatim>\<open>_file\<close> and the recursion of \<^verbatim>\<open>_section\<close>
  run on fuel; \<open>read_config\<close> below supplies enough of it for any file. A function
  returns \<open>Inl\<close> where the source returns 0 from a failure branch; a NULL that leaves
  through the ordinary \<^verbatim>\<open>return\<close> is \<open>Inr []\<close>, and the caller's test decides.
\<close>

fun array_elems :: "(string \<Rightarrow> 'r option) \<Rightarrow> nat \<Rightarrow> parser \<Rightarrow> error + ('r config_value list \<times> parser)" where
  "array_elems sd 0 p = Inl Out_of_fuel"
| "array_elems sd (Suc f) p =
     (if t p \<noteq> TOK_ARRAY_E then
        (case type' sd p of
           Inl e \<Rightarrow> Inl e
         | Inr (l, p1) \<Rightarrow>
             (case (if t p1 = TOK_COMMA then match p1 TOK_COMMA else Inr p1) of
                Inl e \<Rightarrow> Inl e
              | Inr p2 \<Rightarrow>
                  (case array_elems sd f p2 of
                     Inl e \<Rightarrow> Inl e
                   | Inr (h, p3) \<Rightarrow> Inr (l # h, p3))))
      else Inr ([], p))"

definition value' :: "(string \<Rightarrow> 'r option) \<Rightarrow> nat \<Rightarrow> parser \<Rightarrow> error + ('r config_value list \<times> parser)" where
  "value' sd f p =
     (if t p = TOK_ARRAY_B then
        (case match p TOK_ARRAY_B of
           Inl e \<Rightarrow> Inl e
         | Inr p1 \<Rightarrow>
             (case array_elems sd f p1 of
                Inl e \<Rightarrow> Inl e
              | Inr (h, p2) \<Rightarrow>
                  (case match p2 TOK_ARRAY_E of
                     Inl e \<Rightarrow> Inl e
                   | Inr p3 \<Rightarrow> Inr (h, p3))))
      else
        (case type' sd p of
           Inl e \<Rightarrow> Inl e
         | Inr (h, p1) \<Rightarrow> Inr ([h], p1)))"

fun section' :: "(string \<Rightarrow> 'r option) \<Rightarrow> nat \<Rightarrow> parser \<Rightarrow> error + ('r config_node \<times> parser)"
  and section_children ::
    "(string \<Rightarrow> 'r option) \<Rightarrow> nat \<Rightarrow> parser \<Rightarrow> error + ('r config_node list \<times> parser)" where
  "section' sd 0 p = Inl Out_of_fuel"
| "section' sd (Suc f) p =
     (case dup_tok p of
        Inl e \<Rightarrow> Inl e
      | Inr k \<Rightarrow>
          (case match p TOK_IDENTIFIER of
             Inl e \<Rightarrow> Inl e
           | Inr p1 \<Rightarrow>
               if t p1 = TOK_SECTION_B then
                 (case match p1 TOK_SECTION_B of
                    Inl e \<Rightarrow> Inl e
                  | Inr p2 \<Rightarrow>
                      (case section_children sd f p2 of
                         Inl e \<Rightarrow> Inl e
                       | Inr (c, p3) \<Rightarrow>
                           (case match p3 TOK_SECTION_E of
                              Inl e \<Rightarrow> Inl e
                            | Inr p4 \<Rightarrow> Inr (Node k c [], p4))))
               else
                 (case match p1 TOK_EQ of
                    Inl e \<Rightarrow> Inl e
                  | Inr p2 \<Rightarrow>
                      (case value' sd f p2 of
                         Inl e \<Rightarrow> Inl e
                       | Inr (h, p3) \<Rightarrow>
                           if h = [] then Inl Null_result else Inr (Node k [] h, p3)))))"
| "section_children sd 0 p = Inl Out_of_fuel"
| "section_children sd (Suc f) p =
     (if t p \<noteq> TOK_SECTION_E then
        (case section' sd f p of
           Inl e \<Rightarrow> Inl e
         | Inr (n, p1) \<Rightarrow>
             (case section_children sd f p1 of
                Inl e \<Rightarrow> Inl e
              | Inr (c, p2) \<Rightarrow> Inr (n # c, p2)))
      else Inr ([], p))"

fun file' :: "(string \<Rightarrow> 'r option) \<Rightarrow> nat \<Rightarrow> parser \<Rightarrow> error + ('r config_node list \<times> parser)" where
  "file' sd 0 p = Inl Out_of_fuel"
| "file' sd (Suc f) p =
     (if t p \<noteq> TOK_EOF then
        (case section' sd f p of
           Inl e \<Rightarrow> Inl e
         | Inr (n, p1) \<Rightarrow>
             (case file' sd f p1 of
                Inl e \<Rightarrow> Inl e
              | Inr (root, p2) \<Rightarrow> Inr (n # root, p2)))
      else Inr ([], p))"

text \<open>
  \<^verbatim>\<open>read_config\<close> on the bytes of the file (\<^verbatim>\<open>stat\<close>, \<^verbatim>\<open>open\<close>, \<^verbatim>\<open>mmap\<close>, \<^verbatim>\<open>munmap\<close> and
  \<^verbatim>\<open>close\<close> are taken to succeed). \<open>Inr root\<close> is the return value 1 with \<^verbatim>\<open>cf->root\<close>
  set; \<open>Inl e\<close> is the return value 0, which leaves \<^verbatim>\<open>cf->root\<close> NULL.
\<close>

definition read_config :: "(string \<Rightarrow> 'r option) \<Rightarrow> string \<Rightarrow> error + 'r config_node list" where
  "read_config sd file =
     (let p = get_token \<lparr>fb = file, t = TOK_EOF, tb = 0, te = 0, line = 1\<rparr>
      in case file' sd (2 * length file + 1) p of
           Inl e \<Rightarrow> Inl e
         | Inr (root, p1) \<Rightarrow> if root = [] then Inl Null_result else Inr root)"

subsection \<open>Path lookup\<close>

fun skip_sep :: "char \<Rightarrow> string \<Rightarrow> string" where
  \<comment> \<open>\<^verbatim>\<open>while (*path && (*path == sep)) path++;\<close>\<close>
  "skip_sep sep [] = []"
| "skip_sep sep (c # path) = (if c = sep then skip_sep sep path else c # path)"

fun seg_end :: "char \<Rightarrow> string \<Rightarrow> string" where
  \<comment> \<open>\<^verbatim>\<open>for (e = path; *e && (*e != sep); e++) ;\<close>\<close>
  "seg_end sep [] = []"
| "seg_end sep (c # e) = (if c \<noteq> sep then seg_end sep e else c # e)"

text \<open>
  \<^verbatim>\<open>_tok_match(str, b, e)\<close>: \<open>b\<close> and \<open>e\<close> point into one string, each modelled by the
  rest of the string from it, so \<^verbatim>\<open>b != e\<close> is \<open>b \<noteq> e\<close>. At the terminator \<^verbatim>\<open>*b\<close> is NUL
  and differs from \<^verbatim>\<open>*str\<close>.
\<close>

fun tok_match :: "string \<Rightarrow> string \<Rightarrow> string \<Rightarrow> bool" where
  "tok_match [] b e = (\<not> (b \<noteq> e))"
| "tok_match (c # str) b e =
     (if b \<noteq> e then
        (case b of
           [] \<Rightarrow> False
         | x # b' \<Rightarrow> if c \<noteq> x then False else tok_match str b' e)
      else False)"

fun hunt :: "'r config_node list \<Rightarrow> string \<Rightarrow> string \<Rightarrow> 'r config_node list" where
  \<comment> \<open>the inner \<^verbatim>\<open>while (cn)\<close> of \<^verbatim>\<open>find_config_node\<close>\<close>
  "hunt [] path e = []"
| "hunt (n # sib) path e = (if tok_match (key n) path e then n # sib else hunt sib path e)"

lemma length_seg_end: "length (seg_end sep path) \<le> length path"
  by (induction path) auto

lemma length_skip_sep: "length (skip_sep sep path) \<le> length path"
  by (induction path) auto

lemma skip_sep_head: "skip_sep sep path = c # cs \<Longrightarrow> c \<noteq> sep"
  by (induction path) (auto split: if_splits)

lemma seg_end_shorter:
  assumes "seg_end sep (skip_sep sep path) \<noteq> []"
  shows "length (seg_end sep (skip_sep sep path)) < length path"
proof (cases "skip_sep sep path")
  case Nil
  with assms show ?thesis by simp
next
  case (Cons c cs)
  then have "c \<noteq> sep" by (rule skip_sep_head)
  with Cons have "length (seg_end sep (skip_sep sep path)) \<le> length cs"
    by (simp add: length_seg_end)
  also have "length cs < length (skip_sep sep path)" using Cons by simp
  also have "\<dots> \<le> length path" by (rule length_skip_sep)
  finally show ?thesis .
qed

function find_config_node ::
  "'r config_node list \<Rightarrow> string \<Rightarrow> char \<Rightarrow> 'r config_node list" where
  "find_config_node cn path sep =
     (if cn = [] then []
      else
        let path1 = skip_sep sep path;
            e = seg_end sep path1;
            cn1 = hunt cn path1 e
        in if cn1 \<noteq> [] \<and> e \<noteq> [] then find_config_node (child (hd cn1)) e sep else cn1)"
  by pat_completeness auto
termination
  by (relation "measure (\<lambda>(cn, path, sep). length path)") (auto simp: seg_end_shorter)

declare find_config_node.simps [simp del]

text \<open>
  The typed lookups read \<^verbatim>\<open>n->v->type\<close> without testing \<^verbatim>\<open>n->v\<close>. \<^verbatim>\<open>fail\<close> of
  \<^verbatim>\<open>find_config_str\<close> may be NULL, so that pointer is an option.
\<close>

definition find_config_str ::
  "'r config_node list \<Rightarrow> string \<Rightarrow> char \<Rightarrow> string option \<Rightarrow> error + string option" where
  "find_config_str cn path sep fail =
     (case find_config_node cn path sep of
        [] \<Rightarrow> Inr fail
      | n # _ \<Rightarrow>
          (case v n of
             [] \<Rightarrow> Inl Null_dereference
           | x # _ \<Rightarrow> (case x of CFG_STRING s \<Rightarrow> Inr (Some s) | _ \<Rightarrow> Inr fail)))"

definition find_config_int ::
  "'r config_node list \<Rightarrow> string \<Rightarrow> char \<Rightarrow> 32 word \<Rightarrow> error + 32 word" where
  "find_config_int cn path sep fail =
     (case find_config_node cn path sep of
        [] \<Rightarrow> Inr fail
      | n # _ \<Rightarrow>
          (case v n of
             [] \<Rightarrow> Inl Null_dereference
           | x # _ \<Rightarrow> (case x of CFG_INT i \<Rightarrow> Inr i | _ \<Rightarrow> Inr fail)))"

definition find_config_float ::
  "'r config_node list \<Rightarrow> string \<Rightarrow> char \<Rightarrow> 'r \<Rightarrow> error + 'r" where
  "find_config_float cn path sep fail =
     (case find_config_node cn path sep of
        [] \<Rightarrow> Inr fail
      | n # _ \<Rightarrow>
          (case v n of
             [] \<Rightarrow> Inl Null_dereference
           | x # _ \<Rightarrow> (case x of CFG_FLOAT r \<Rightarrow> Inr r | _ \<Rightarrow> Inr fail)))"

subsection \<open>The writer\<close>

function digits :: "nat \<Rightarrow> string" where
  "digits n = (if n < 10 then [char_of (48 + n)] else digits (n div 10) @ [char_of (48 + n mod 10)])"
  by pat_completeness auto
termination
  by (relation "measure id") auto

declare digits.simps [simp del]

definition print_d :: "32 word \<Rightarrow> string" where
  \<comment> \<open>\<^verbatim>\<open>printf("%d")\<close>\<close>
  "print_d i = (if sint i < 0 then CHR ''-'' # digits (nat (- sint i)) else digits (nat (sint i)))"

definition write_value :: "('r \<Rightarrow> string) \<Rightarrow> 'r config_value \<Rightarrow> string" where
  \<comment> \<open>\<open>pf\<close> is \<^verbatim>\<open>printf("%f")\<close>\<close>
  "write_value pf x =
     (case x of
        CFG_STRING s \<Rightarrow> DQ # s @ [DQ]
      | CFG_FLOAT r \<Rightarrow> pf r
      | CFG_INT i \<Rightarrow> print_d i)"

fun write_array :: "('r \<Rightarrow> string) \<Rightarrow> 'r config_value list \<Rightarrow> string" where
  "write_array pf [] = []"
| "write_array pf (x # xs) =
     write_value pf x @ (if xs \<noteq> [] then '', '' else []) @ write_array pf xs"

definition MAX_INDENT :: nat where "MAX_INDENT = 32"

function write_config' :: "('r \<Rightarrow> string) \<Rightarrow> 'r config_node list \<Rightarrow> nat \<Rightarrow> string" where
  "write_config' pf [] level = []"
| "write_config' pf (Node k c h # sib) level =
     (let space = replicate (if level < MAX_INDENT then level else MAX_INDENT) CHR '' ''
      in space @ k
         @ (if h = [] then
              '' {'' @ [NL] @ write_config' pf c (level + 1) @ space @ ''}''
            else
              ''='' @ (if tl h \<noteq> [] then ''['' @ write_array pf h @ '']''
                       else write_value pf (hd h)))
         @ [NL] @ write_config' pf sib level)"
  by pat_completeness auto
termination
  by (relation "measure (\<lambda>(pf, n, level). size_list size n)") auto

definition write_config :: "('r \<Rightarrow> string) \<Rightarrow> 'r config_node list \<Rightarrow> string" where
  \<comment> \<open>the text written to the file (\<^verbatim>\<open>fopen\<close> is taken to succeed; the source checks no write)\<close>
  "write_config pf root = write_config' pf root 0"

section \<open>The md superblock probe of lib/device/dev-md.c\<close>

text \<open>
  The device layer (\<^verbatim>\<open>dev_get_size\<close>, \<^verbatim>\<open>dev_open\<close>, \<^verbatim>\<open>dev_read\<close>, \<^verbatim>\<open>dev_close\<close>) is not
  among the sources: a device is what these calls answer. \<^verbatim>\<open>xlate32\<close> (xlate.h) and
  \<^verbatim>\<open>SECTOR_SHIFT\<close> are not there either and are the parameters \<open>xlate32\<close> and \<open>shift\<close>.
  The calls made on the device are returned as a trace; a failing \<^verbatim>\<open>dev_close\<close> is only
  logged.
\<close>

record device =
  get_size :: "64 word option"  \<comment> \<open>the size in sectors; \<open>None\<close> when \<^verbatim>\<open>dev_get_size\<close> fails\<close>
  opens :: bool
  read32 :: "64 word \<Rightarrow> 32 word option"  \<comment> \<open>the four bytes at an offset; \<open>None\<close> when \<^verbatim>\<open>dev_read\<close> fails\<close>

datatype dev_call = Dev_get_size | Dev_open | Dev_read "64 word" | Dev_close

definition MD_SB_MAGIC :: "32 word" where "MD_SB_MAGIC = 0xa92b4efc"
definition MD_RESERVED_BYTES :: "64 word" where "MD_RESERVED_BYTES = 64 * 1024"
definition MD_RESERVED_SECTORS :: "64 word" where "MD_RESERVED_SECTORS = MD_RESERVED_BYTES div 512"

definition MD_NEW_SIZE_SECTORS :: "64 word \<Rightarrow> 64 word" where
  "MD_NEW_SIZE_SECTORS x = (x AND NOT (MD_RESERVED_SECTORS - 1)) - MD_RESERVED_SECTORS"

definition dev_has_md_magic :: "(32 word \<Rightarrow> 32 word) \<Rightarrow> device \<Rightarrow> 64 word \<Rightarrow> bool" where
  "dev_has_md_magic xlate32 dev sb_offset =
     (case read32 dev sb_offset of
        None \<Rightarrow> False
      | Some md_magic \<Rightarrow> md_magic = xlate32 MD_SB_MAGIC \<or> md_magic = MD_SB_MAGIC)"

definition v1_sb_offset :: "nat \<Rightarrow> 64 word \<Rightarrow> nat \<Rightarrow> 64 word option" where
  \<comment> \<open>the \<^verbatim>\<open>switch\<close> has no default: another minor version leaves \<^verbatim>\<open>sb_offset\<close> unset\<close>
  "v1_sb_offset shift size' minor_version =
     (if minor_version = 0 then Some (push_bit shift ((size' - 8 * 2) AND NOT (4 * 2 - 1)))
      else if minor_version = 1 then Some (push_bit shift 0)
      else if minor_version = 2 then Some (push_bit shift (4 * 2))
      else None)"

text \<open>
  The \<^verbatim>\<open>do ... while (++minor <= 2)\<close> loop: the offset where the magic was found, and
  the offsets read.
\<close>

function v1_loop ::
  "(32 word \<Rightarrow> 32 word) \<Rightarrow> nat \<Rightarrow> device \<Rightarrow> 64 word \<Rightarrow> nat \<Rightarrow> 64 word option \<times> dev_call list" where
  "v1_loop xlate32 shift dev size' minor =
     (case v1_sb_offset shift size' minor of
        None \<Rightarrow> (None, [])
      | Some sb_offset \<Rightarrow>
          if dev_has_md_magic xlate32 dev sb_offset then (Some sb_offset, [Dev_read sb_offset])
          else if minor + 1 \<le> 2 then
            (let r = v1_loop xlate32 shift dev size' (minor + 1)
             in (fst r, Dev_read sb_offset # snd r))
          else (None, [Dev_read sb_offset]))"
  by pat_completeness auto
termination
  by (relation "measure (\<lambda>(xlate32, shift, dev, size', minor). 3 - minor)") auto

declare v1_loop.simps [simp del]

text \<open>
  \<^verbatim>\<open>dev_is_md(dev, sb)\<close>: the return value, what is stored through \<^verbatim>\<open>sb\<close> (\<open>None\<close> when
  nothing is stored; \<open>want_sb\<close> says that \<^verbatim>\<open>sb\<close> is not NULL), and the calls made.
\<close>

definition dev_is_md ::
  "(32 word \<Rightarrow> 32 word) \<Rightarrow> nat \<Rightarrow> device \<Rightarrow> bool \<Rightarrow> int \<times> 64 word option \<times> dev_call list" where
  "dev_is_md xlate32 shift dev want_sb =
     (case get_size dev of
        None \<Rightarrow> (- 1, None, [Dev_get_size])
      | Some size' \<Rightarrow>
          if size' < MD_RESERVED_SECTORS * 2 then (0, None, [Dev_get_size])
          else if \<not> opens dev then (- 1, None, [Dev_get_size, Dev_open])
          else
            (let sb_offset = push_bit shift (MD_NEW_SIZE_SECTORS size')
             in if dev_has_md_magic xlate32 dev sb_offset then
                  (1, if want_sb then Some sb_offset else None,
                   [Dev_get_size, Dev_open, Dev_read sb_offset, Dev_close])
                else
                  (case v1_loop xlate32 shift dev size' 0 of
                     (Some off, calls) \<Rightarrow>
                       (1, if want_sb then Some off else None,
                        [Dev_get_size, Dev_open, Dev_read sb_offset] @ calls @ [Dev_close])
                   | (None, calls) \<Rightarrow>
                       (0, None,
                        [Dev_get_size, Dev_open, Dev_read sb_offset] @ calls @ [Dev_close]))))"

section \<open>Properties of the configuration language\<close>

subsection \<open>Stand-ins for the C library in examples\<close>

text \<open>
  In the examples a float is a fixed-point number of six decimals, counted in
  millionths. \<open>strtod0\<close> converts a decimal literal (digits, a point, digits; no sign and
  no exponent) and drops what is behind the sixth decimal; it reads up to the first
  byte that is no digit, which has to be among the bytes given. \<open>printf0\<close> prints as
  \<^verbatim>\<open>%f\<close> does: the digits of the whole part, the point, six decimals.
\<close>

definition decimal :: "string \<Rightarrow> nat" where
  "decimal ds = foldl (\<lambda>a c. 10 * a + digit_val c) 0 ds"

definition strtod0 :: "string \<Rightarrow> nat option" where
  "strtod0 s =
     (let ds = takeWhile isdigit s;
          s1 = dropWhile isdigit s;
          pt = (s1 \<noteq> [] \<and> hd s1 = CHR ''.'');
          es = (if pt then takeWhile isdigit (tl s1) else []);
          s2 = (if pt then dropWhile isdigit (tl s1) else s1)
      in if s2 = [] then None
         else Some (decimal ds * 1000000 + decimal (take 6 (es @ ''000000''))))"

definition printf0 :: "nat \<Rightarrow> string" where
  "printf0 r =
     digits (r div 1000000) @ CHR ''.''
     # replicate (6 - length (digits (r mod 1000000))) CHR ''0'' @ digits (r mod 1000000)"

subsection \<open>Path lookup\<close>

lemma tok_match_iff: "tok_match str (seg @ e) e \<longleftrightarrow> str = seg"
proof (induction str arbitrary: seg)
  case Nil
  show ?case by auto
next
  case (Cons c str)
  show ?case
  proof (cases seg)
    case Nil
    then show ?thesis by simp
  next
    case (Cons x seg')
    with Cons.IH [of seg'] show ?thesis by auto
  qed
qed

lemma skip_sep_dropWhile: "skip_sep sep path = dropWhile (\<lambda>c. c = sep) path"
  by (induction path) auto

lemma seg_end_dropWhile: "seg_end sep path = dropWhile (\<lambda>c. c \<noteq> sep) path"
  by (induction path) auto

lemma hunt_dropWhile: "hunt cn (seg @ e) e = dropWhile (\<lambda>n. key n \<noteq> seg) cn"
  by (induction cn) (auto simp: tok_match_iff)

lemma hunt_segment:
  "hunt cn p (dropWhile P p) = dropWhile (\<lambda>n. key n \<noteq> takeWhile P p) cn"
  using hunt_dropWhile [of cn "takeWhile P p" "dropWhile P p"] by simp

lemma find_dropWhile:
  "find P xs = (case dropWhile (\<lambda>x. \<not> P x) xs of [] \<Rightarrow> None | x # _ \<Rightarrow> Some x)"
  by (induction xs) auto

lemma find_config_node_step:
  assumes "p = dropWhile (\<lambda>c. c = sep) path"
    and "seg = takeWhile (\<lambda>c. c \<noteq> sep) p"
    and "rest = dropWhile (\<lambda>c. c \<noteq> sep) p"
  shows "find_config_node cn path sep =
     (case dropWhile (\<lambda>n. key n \<noteq> seg) cn of
        [] \<Rightarrow> []
      | n # sib \<Rightarrow> if rest \<noteq> [] then find_config_node (child n) rest sep else n # sib)"
proof (cases "cn = []")
  case True
  then show ?thesis by (subst find_config_node.simps) simp
next
  case False
  define d where "d = dropWhile (\<lambda>n. key n \<noteq> seg) cn"
  have h: "hunt cn p rest = d"
    unfolding d_def assms(2) assms(3) by (rule hunt_segment)
  have "find_config_node cn path sep =
          (if d \<noteq> [] \<and> rest \<noteq> [] then find_config_node (child (hd d)) rest sep else d)"
    using False h
    by (subst find_config_node.simps)
       (simp only: skip_sep_dropWhile seg_end_dropWhile Let_def assms [symmetric] if_False)
  also have "\<dots> = (case d of [] \<Rightarrow> []
       | n # sib \<Rightarrow> if rest \<noteq> [] then find_config_node (child n) rest sep else n # sib)"
    by (cases d) simp_all
  finally show ?thesis unfolding d_def .
qed

text \<open>
  The lookup as the specification words it: trim the leading separators, take the
  segment up to the next separator, search the siblings from the left for the node
  whose key is the segment, return it when the path ends there and go on in its
  children otherwise.
\<close>

function find_node_spec :: "'r config_node list \<Rightarrow> string \<Rightarrow> char \<Rightarrow> 'r config_node option" where
  "find_node_spec nodes path sep =
     (let p = dropWhile (\<lambda>c. c = sep) path;
          seg = takeWhile (\<lambda>c. c \<noteq> sep) p;
          rest = dropWhile (\<lambda>c. c \<noteq> sep) p
      in case find (\<lambda>n. key n = seg) nodes of
           None \<Rightarrow> None
         | Some n \<Rightarrow> if rest = [] then Some n else find_node_spec (child n) rest sep)"
  by pat_completeness auto
termination
proof (relation "measure (\<lambda>(nodes, path, sep). length path)", goal_cases)
  case 1
  show ?case by simp
next
  case (2 nodes path sep p seg rest n)
  then have "seg_end sep (skip_sep sep path) \<noteq> []"
    by (simp add: seg_end_dropWhile skip_sep_dropWhile)
  then have "length (seg_end sep (skip_sep sep path)) < length path"
    by (rule seg_end_shorter)
  with 2 show ?case by (simp add: seg_end_dropWhile skip_sep_dropWhile)
qed

declare find_node_spec.simps [simp del]

text \<open>
  C6. \<^verbatim>\<open>find_config_node\<close> computes the lookup of the specification: the node it
  points to is the one \<open>find_node_spec\<close> finds, and it is NULL exactly when
  \<open>find_node_spec\<close> finds none. On the tree parsed from \<^verbatim>\<open>a { b { c = 1 } }\<close> the path
  \<^verbatim>\<open>a/b/c\<close> gives the binding \<^verbatim>\<open>c\<close> and the path \<^verbatim>\<open>a/x\<close> gives nothing.
\<close>

lemma find_config_node_refines:
  "(case find_config_node cn path sep of [] \<Rightarrow> None | n # _ \<Rightarrow> Some n)
     = find_node_spec cn path sep"
proof (induction cn path sep rule: find_node_spec.induct)
  case (1 nodes path sep)
  define p where "p = dropWhile (\<lambda>c. c = sep) path"
  define seg where "seg = takeWhile (\<lambda>c. c \<noteq> sep) p"
  define rest where "rest = dropWhile (\<lambda>c. c \<noteq> sep) p"
  define d where "d = dropWhile (\<lambda>n. key n \<noteq> seg) nodes"
  have code: "find_config_node nodes path sep =
     (case d of
        [] \<Rightarrow> []
      | n # sib \<Rightarrow> if rest \<noteq> [] then find_config_node (child n) rest sep else n # sib)"
    unfolding d_def by (rule find_config_node_step [OF p_def seg_def rest_def])
  have spec: "find_node_spec nodes path sep =
     (case find (\<lambda>n. key n = seg) nodes of
        None \<Rightarrow> None
      | Some n \<Rightarrow> if rest = [] then Some n else find_node_spec (child n) rest sep)"
    by (subst find_node_spec.simps)
       (simp only: Let_def p_def [symmetric] seg_def [symmetric] rest_def [symmetric])
  have f: "find (\<lambda>n. key n = seg) nodes = (case d of [] \<Rightarrow> None | n # _ \<Rightarrow> Some n)"
    unfolding d_def by (simp add: find_dropWhile)
  show ?case
  proof (cases d)
    case Nil
    then show ?thesis by (simp add: code spec f)
  next
    case (Cons n sib)
    show ?thesis
    proof (cases "rest = []")
      case True
      with Cons show ?thesis by (simp add: code spec f)
    next
      case False
      have "find (\<lambda>n. key n = seg) nodes = Some n" using Cons by (simp add: f)
      from "1.IH" [OF p_def seg_def rest_def this False] Cons False
      show ?thesis by (simp add: code spec f)
    qed
  qed
qed

theorem find_config_node_spec:
  "(case find_config_node cn path sep of [] \<Rightarrow> None | n # _ \<Rightarrow> Some n)
     = find_node_spec cn path sep
   \<and> read_config strtod0 ''a { b { c = 1 } }''
       = Inr [Node ''a'' [Node ''b'' [Node ''c'' [] [CFG_INT 1]] []] []]
   \<and> find_config_node [Node ''a'' [Node ''b'' [Node ''c'' [] [CFG_INT 1]] []] []]
         ''a/b/c'' CHR ''/''
       = [Node ''c'' [] [CFG_INT 1 :: nat config_value]]
   \<and> find_config_node
         [Node ''a'' [Node ''b'' [Node ''c'' [] [CFG_INT 1 :: nat config_value]] []] []]
         ''a/x'' CHR ''/''
       = []"
proof (intro conjI)
  show "(case find_config_node cn path sep of [] \<Rightarrow> None | n # _ \<Rightarrow> Some n)
     = find_node_spec cn path sep"
    by (rule find_config_node_refines)
  show "read_config strtod0 ''a { b { c = 1 } }''
       = Inr [Node ''a'' [Node ''b'' [Node ''c'' [] [CFG_INT 1]] []] []]"
    by code_simp
  show "find_config_node [Node ''a'' [Node ''b'' [Node ''c'' [] [CFG_INT 1]] []] []]
         ''a/b/c'' CHR ''/''
       = [Node ''c'' [] [CFG_INT 1 :: nat config_value]]"
    by code_simp
  show "find_config_node
         [Node ''a'' [Node ''b'' [Node ''c'' [] [CFG_INT 1 :: nat config_value]] []] []]
         ''a/x'' CHR ''/''
       = []"
    by code_simp
qed

lemma tok_match_empty: "tok_match str [] [] \<longleftrightarrow> str = []"
  using tok_match_iff [of str "[]" "[]"] by simp

text \<open>
  C10, as amended. On an empty path, and on a path of separators only, the segment is
  empty and matches the empty key alone: \<^verbatim>\<open>find_config_node\<close> returns the first node of the
  sibling list whose key is empty, and nothing exactly when every key of the list is
  non-empty.
\<close>

theorem find_config_node_empty_path:
  assumes "list_all (\<lambda>c. c = sep) path"
  shows "find_config_node cn path sep = dropWhile (\<lambda>n. key n \<noteq> []) cn
         \<and> (find_config_node cn path sep = [] \<longleftrightarrow> list_all (\<lambda>n. key n \<noteq> []) cn)"
proof -
  have s: "skip_sep sep path = []" using assms by (induction path) auto
  have h: "hunt cn [] [] = dropWhile (\<lambda>n. key n \<noteq> []) cn"
    by (induction cn) (auto simp: tok_match_empty)
  have "find_config_node cn path sep = hunt cn [] []"
    by (subst find_config_node.simps) (simp add: s)
  with h have "find_config_node cn path sep = dropWhile (\<lambda>n. key n \<noteq> []) cn" by simp
  then show ?thesis by (simp add: dropWhile_eq_Nil_conv list_all_iff)
qed

theorem find_config_node_empty_path_witness:
  "list_all (\<lambda>c. c = CHR ''/'') ''//''
   \<and> find_config_node [Node ''a'' [] [CFG_INT 1 :: nat config_value]] ''//'' CHR ''/'' = []
   \<and> find_config_node [Node ''a'' [] [CFG_INT 1 :: nat config_value]] [] CHR ''/'' = []
   \<and> find_config_node [Node ''a'' [] [], Node [] [] [CFG_INT 2 :: nat config_value]] ''//'' CHR ''/''
       = [Node [] [] [CFG_INT 2]]"
  using find_config_node_empty_path
          [of "CHR ''/''" "''//''" "[Node ''a'' [] [CFG_INT 1 :: nat config_value]]"]
        find_config_node_empty_path
          [of "CHR ''/''" "[]" "[Node ''a'' [] [CFG_INT 1 :: nat config_value]]"]
        find_config_node_empty_path
          [of "CHR ''/''" "''//''" "[Node ''a'' [] [], Node [] [] [CFG_INT 2 :: nat config_value]]"]
  by simp

text \<open>
  The claim as stated fails on a tree with an empty key, and \<^verbatim>\<open>read_config\<close> returns one:
  from an identifier that begins with a zero byte \<^verbatim>\<open>_dup_tok\<close> copies the empty key. On
  that tree the empty path and the path of separators return the node.
\<close>

theorem find_config_node_empty_key:
  "read_config strtod0 ([NUL] @ '' = 1'') = Inr [Node [] [] [CFG_INT 1]]
   \<and> find_config_node [Node [] [] [CFG_INT 1 :: nat config_value]] [] CHR ''/''
       = [Node [] [] [CFG_INT 1]]
   \<and> find_config_node [Node [] [] [CFG_INT 1 :: nat config_value]] ''//'' CHR ''/''
       = [Node [] [] [CFG_INT 1]]"
proof (intro conjI)
  show "read_config strtod0 ([NUL] @ '' = 1'') = Inr [Node [] [] [CFG_INT 1]]"
    by code_simp
  show "find_config_node [Node [] [] [CFG_INT 1 :: nat config_value]] [] CHR ''/''
       = [Node [] [] [CFG_INT 1]]"
    by code_simp
  show "find_config_node [Node [] [] [CFG_INT 1 :: nat config_value]] ''//'' CHR ''/''
       = [Node [] [] [CFG_INT 1]]"
    by code_simp
qed

text \<open>
  C3. The typed lookups read the type of the first value without testing that the
  node has a value: on a section they read through a NULL pointer.
\<close>

theorem find_config_int_on_section:
  "find_config_int [Node ''a'' [Node ''b'' [] [CFG_INT 1 :: nat config_value]] []]
     ''a'' CHR ''/'' 7 = Inl Null_dereference"
  by code_simp

subsection \<open>Reading\<close>

text \<open>
  C2. A file of blanks and comments only makes \<^verbatim>\<open>_file\<close> return a NULL root, which
  \<^verbatim>\<open>read_config\<close> takes for a failure: it returns 0.
\<close>

theorem read_config_comment_only:
  "read_config strtod0 (''# nothing here'' @ [NL] @ ''  '' @ [NL]) = Inl Null_result"
  by code_simp

text \<open>
  C5. \<^verbatim>\<open>_eat_space\<close> counts a comment as a line and then counts the newline that ends
  it again: after one comment line the binding on line 2 is reported on line 3.
\<close>

theorem read_config_line_after_comment:
  "read_config strtod0 (''# c'' @ [NL] @ ''a = '') = Inl (Expected_value 3)"
  by code_simp

subsection \<open>The shape of a parsed tree\<close>

text \<open>
  A node is a section when it has no value and a binding when it has one; a binding
  has no children.
\<close>

fun section_xor_binding :: "'r config_node \<Rightarrow> bool" where
  "section_xor_binding (Node k c h) =
     ((h = [] \<or> c = []) \<and> list_all section_xor_binding c)"

lemma section_shape:
  "(section' sd f p = Inr (n, p1) \<longrightarrow> section_xor_binding n)
   \<and> (section_children sd f p = Inr (c, p2) \<longrightarrow> list_all section_xor_binding c)"
proof (induction f arbitrary: p n p1 c p2)
  case 0
  show ?case by simp
next
  case (Suc f)
  have a: "section_xor_binding n" if "section' sd (Suc f) p = Inr (n, p1)"
    using that Suc [THEN conjunct2]
    by (auto split: sum.splits prod.splits if_splits)
  have b: "list_all section_xor_binding c" if "section_children sd (Suc f) p = Inr (c, p2)"
    using that Suc
    by (auto split: sum.splits prod.splits if_splits)
  from a b show ?case by blast
qed

lemma section_wf: "section' sd f p = Inr (n, p1) \<Longrightarrow> section_xor_binding n"
  using section_shape [of sd f p n p1] by blast

lemma file_shape: "file' sd f p = Inr (root, p1) \<Longrightarrow> list_all section_xor_binding root"
proof (induction f arbitrary: p root p1)
  case 0
  then show ?case by simp
next
  case (Suc f)
  show ?case
  proof (cases "t p \<noteq> TOK_EOF")
    case False
    with Suc.prems show ?thesis by simp
  next
    case True
    with Suc.prems obtain n q ns where
      s: "section' sd f p = Inr (n, q)" and r: "file' sd f q = Inr (ns, p1)"
      and root: "root = n # ns"
      by (auto split: sum.splits prod.splits)
    from section_wf [OF s] Suc.IH [OF r] root show ?thesis by simp
  qed
qed

text \<open>
  C4, as amended. In every tree that \<^verbatim>\<open>read_config\<close> returns, every node is a section
  (no values; its children may be none) or a binding (at least one value, no
  children), never both.
\<close>

theorem read_config_shape:
  assumes "read_config sd file = Inr root"
  shows "list_all section_xor_binding root"
proof -
  from assms obtain p p1 where "file' sd (2 * length file + 1) p = Inr (root, p1)"
    by (auto simp add: read_config_def Let_def simp del: file'.simps
        split: sum.splits prod.splits if_splits)
  then show ?thesis by (rule file_shape)
qed

theorem read_config_shape_witness:
  "read_config strtod0 ''a { } b = [1, 2]'' = Inr [Node ''a'' [] [], Node ''b'' [] [CFG_INT 1, CFG_INT 2]]
   \<and> list_all section_xor_binding [Node ''a'' [] [], Node ''b'' [] [CFG_INT 1, CFG_INT 2 :: nat config_value]]"
proof -
  have r: "read_config strtod0 ''a { } b = [1, 2]''
      = Inr [Node ''a'' [] [], Node ''b'' [] [CFG_INT 1, CFG_INT 2]]"
    by code_simp
  from read_config_shape [OF r] r show ?thesis by simp
qed

text \<open>
  The claim as stated fails on an empty section body: the node has neither children
  nor values.
\<close>

theorem read_config_empty_section:
  "read_config strtod0 ''a { }'' = Inr [Node ''a'' [] []]"
  by code_simp


subsection \<open>Values and the grammar\<close>

text \<open>
  The tokens ahead of a parser state: the kinds of the next \<open>m\<close> tokens, the state
  after \<open>m\<close> tokens, and the values that \<^verbatim>\<open>_type\<close> makes of those among them that are
  Type tokens. A Type token converts when \<^verbatim>\<open>_type\<close> gets through its conversion: a
  string token holds more than its opening quote (a lone quote at the end of the file
  makes \<^verbatim>\<open>_dup_tok\<close> copy a negative length), and on a number token \<^verbatim>\<open>strtol\<close> or
  \<^verbatim>\<open>strtod\<close> stops among the readable bytes (a number that ends a file which fills its
  last page makes them read behind the mapping).
\<close>

definition is_type :: "token \<Rightarrow> bool" where
  "is_type tk = (tk = TOK_INT \<or> tk = TOK_FLOAT \<or> tk = TOK_STRING)"



definition type_ok :: "(string \<Rightarrow> 'r option) \<Rightarrow> parser \<Rightarrow> bool" where
  "type_ok sd p =
     ((t p = TOK_STRING \<longrightarrow> tb p + 2 \<le> te p)
      \<and> (t p = TOK_INT \<longrightarrow> \<not> strtol_past (readable p))
      \<and> (t p = TOK_FLOAT \<longrightarrow> sd (readable p) \<noteq> None))"







lemma get_token_cong:
  "fb q = fb p \<Longrightarrow> te q = te p \<Longrightarrow> line q = line p \<Longrightarrow> get_token q = get_token p"
  by (cases p, cases q) (simp add: get_token_def Let_def)

lemma match_Inr: "match p tk = Inr p1 \<longleftrightarrow> t p = tk \<and> p1 = get_token p"
  by (auto simp: match_def)

lemma type'_Inr:
  assumes "type' sd p = Inr (x, p1)"
  shows "is_type (t p) \<and> type_ok sd p \<and> p1 = get_token p"
proof (cases "t p")
  case TOK_STRING
  with assms have len: "\<not> te p - 1 < tb p + 1"
    by (auto simp: type'_def dup_tok_def Let_def split: if_splits)
  then have "te p - 1 + 1 = te p" by simp
  then have "get_token (p\<lparr>tb := tb p + 1, te := te p - 1, te := te p - 1 + 1\<rparr>) = get_token p"
    by (intro get_token_cong) simp_all
  with assms TOK_STRING len show ?thesis
    by (auto simp: type'_def dup_tok_def Let_def match_def is_type_def type_ok_def split: if_splits)
qed (use assms in \<open>auto simp: type'_def match_def is_type_def type_ok_def
           split: if_splits option.splits\<close>)


















lemma lone_quote_refused:
  "read_config strtod0 (''a = '' @ [DQ]) = Inl Negative_length"
  by code_simp

lemma number_at_end_of_page:
  assumes "t p = TOK_INT" and "length (fb p) mod PAGE_SIZE = 0"
    and "list_all isdigit (drop (tb p) (fb p))" and "tb p < length (fb p)"
  shows "type' sd p = Inl Read_past_mapping"
proof -
  from assms(4) obtain c cs where d: "drop (tb p) (fb p) = c # cs"
    by (cases "drop (tb p) (fb p)") auto
  with assms(3) have c: "isdigit c" and cs: "list_all isdigit cs" by simp_all
  from c have "\<not> isspace c" "c \<noteq> CHR ''-''" "c \<noteq> CHR ''+''"
    by (auto simp: isdigit_def isspace_def)
  with c cs d assms(2) have "strtol_past (readable p)"
    by (simp add: strtol_past_def readable_def Let_def)
  with assms(1) show ?thesis by (simp add: type'_def)
qed







subsection \<open>String literals\<close>

text \<open>
  The body of a terminated string literal: no quote in it ends the scan of
  \<^verbatim>\<open>_get_token\<close> early (each is escaped by a backslash), and no backslash at its end
  escapes the closing quote.
\<close>

fun closed_body :: "string \<Rightarrow> bool" where
  "closed_body [] = True"
| "closed_body [c] = (c \<noteq> BS \<and> c \<noteq> DQ)"
| "closed_body (c # d # s) = (if c = BS then closed_body s else c \<noteq> DQ \<and> closed_body (d # s))"

lemma BS_neq_DQ: "BS \<noteq> DQ"
  by (simp add: BS_def DQ_def)

lemma scan_string_body:
  "closed_body s \<Longrightarrow>
   scan_string (pre @ s @ DQ # rest) (length pre) = length pre + length s"
proof (induction s arbitrary: pre rule: closed_body.induct)
  case 1
  show ?case by (subst scan_string.simps) simp
next
  case (2 c)
  have "scan_string (pre @ [c] @ DQ # rest) (length pre)
        = scan_string ((pre @ [c]) @ [] @ DQ # rest) (length (pre @ [c]))"
    using 2 by (subst scan_string.simps) (simp add: nth_append)
  also have "\<dots> = length (pre @ [c]) + length ([] :: string)"
    by (subst scan_string.simps) (simp add: nth_append)
  finally show ?case by simp
next
  case (3 c d s)
  show ?case
  proof (cases "c = BS")
    case True
    with 3 have cb: "closed_body s" by simp
    have "scan_string (pre @ (c # d # s) @ DQ # rest) (length pre)
          = scan_string ((pre @ [c, d]) @ s @ DQ # rest) (length (pre @ [c, d]))"
      using True by (subst scan_string.simps) (simp add: nth_append BS_neq_DQ)
    also have "\<dots> = length (pre @ [c, d]) + length s"
      using "3.IH"(1) [OF True cb] .
    finally show ?thesis by simp
  next
    case False
    with 3 have cb: "closed_body (d # s)" and dq: "c \<noteq> DQ" by simp_all
    have "scan_string (pre @ (c # d # s) @ DQ # rest) (length pre)
          = scan_string ((pre @ [c]) @ (d # s) @ DQ # rest) (length (pre @ [c]))"
      using False dq by (subst scan_string.simps) (simp add: nth_append)
    also have "\<dots> = length (pre @ [c]) + length (d # s)"
      using "3.IH"(2) [OF False cb] .
    finally show ?thesis by simp
  qed
qed

lemma eat_space_stop:
  "i < length b \<Longrightarrow> b ! i \<noteq> CHR ''#'' \<Longrightarrow> \<not> isspace (b ! i) \<Longrightarrow> eat_space b i ln = (i, ln)"
  by (subst eat_space.simps) simp

lemma DQ_plain: "DQ \<noteq> CHR ''#''" "\<not> isspace DQ" "DQ \<noteq> CHR ''{''" "DQ \<noteq> CHR ''}''"
  "DQ \<noteq> CHR ''[''" "DQ \<noteq> CHR '']''" "DQ \<noteq> CHR '',''" "DQ \<noteq> CHR ''=''"
  by (simp_all add: DQ_def isspace_def)

lemma get_token_string:
  assumes "closed_body s" and "fb q = pre @ DQ # s @ DQ # rest" and "te q = length pre"
  shows "get_token q = q\<lparr>t := TOK_STRING, tb := length pre, te := length pre + length s + 2\<rparr>"
proof -
  let ?b = "pre @ DQ # s @ DQ # rest"
  have i: "length pre < length ?b" "?b ! length pre = DQ" by simp_all
  have e: "eat_space ?b (length pre) (line q) = (length pre, line q)"
    using i by (intro eat_space_stop) (simp_all add: DQ_plain)
  have "scan_string ((pre @ [DQ]) @ s @ DQ # rest) (length (pre @ [DQ]))
        = length (pre @ [DQ]) + length s"
    using assms(1) by (rule scan_string_body)
  then have s: "scan_string ?b (Suc (length pre)) = Suc (length pre + length s)" by simp
  show ?thesis
    using assms(2,3) i e s
    by (cases q) (simp add: get_token_def Let_def DQ_plain)
qed

text \<open>
  C7, as amended. Wherever a terminated string literal starts a token, \<^verbatim>\<open>_type\<close> stores
  the text between its quotes as it stands, backslashes included (up to a NUL byte,
  where \<^verbatim>\<open>strncpy\<close> stops): nothing is unescaped.
\<close>

theorem string_literal_stored:
  assumes "closed_body s" and "fb q = pre @ DQ # s @ DQ # rest" and "te q = length pre"
  shows "\<exists>p1. type' sd (get_token q) = Inr (CFG_STRING (takeWhile (\<lambda>c. c \<noteq> NUL) s), p1)"
proof -
  have "take (length s) (drop (Suc (length pre)) (pre @ DQ # s @ DQ # rest)) = s"
    by simp
  then show ?thesis
    using assms(2,3)
    by (simp add: get_token_string [OF assms] type'_def dup_tok_def match_def Let_def)
qed


theorem string_literal_stored_witness:
  "closed_body (''x'' @ [BS, DQ] @ ''y'')
   \<and> (\<exists>p1. type' strtod0
          (get_token \<lparr>fb = ''a = '' @ DQ # (''x'' @ [BS, DQ] @ ''y'') @ DQ # [], t = TOK_EQ,
                       tb = 2, te = 4, line = 1\<rparr>)
        = Inr (CFG_STRING (''x'' @ [BS, DQ] @ ''y''), p1))"
proof -
  have c: "closed_body (''x'' @ [BS, DQ] @ ''y'')"
    by (simp add: BS_def DQ_def)
  from string_literal_stored [OF c,
      of "\<lparr>fb = ''a = '' @ DQ # (''x'' @ [BS, DQ] @ ''y'') @ DQ # [], t = TOK_EQ,
            tb = 2, te = 4, line = 1\<rparr>" "''a = ''" "[]" strtod0]
  have "\<exists>p1. type' strtod0
          (get_token \<lparr>fb = ''a = '' @ DQ # (''x'' @ [BS, DQ] @ ''y'') @ DQ # [], t = TOK_EQ,
                       tb = 2, te = 4, line = 1\<rparr>)
        = Inr (CFG_STRING (takeWhile (\<lambda>c. c \<noteq> NUL) (''x'' @ [BS, DQ] @ ''y'')), p1)"
    by simp
  moreover have "takeWhile (\<lambda>c. c \<noteq> NUL) (''x'' @ [BS, DQ] @ ''y'') = ''x'' @ [BS, DQ] @ ''y''"
    by (simp add: NUL_def BS_def DQ_def)
  ultimately show ?thesis using c by simp
qed

text \<open>
  The claim as stated fails on an escaped quote: the stored text keeps the backslash.
\<close>

theorem escaped_quote_kept:
  "read_config strtod0 (''a = '' @ [DQ] @ ''x'' @ [BS, DQ] @ ''y'' @ [DQ])
     = Inr [Node ''a'' [] [CFG_STRING (''x'' @ [BS, DQ] @ ''y'')]]
   \<and> ''x'' @ [BS, DQ] @ ''y'' \<noteq> ''x'' @ [DQ] @ ''y''"
proof
  show "read_config strtod0 (''a = '' @ [DQ] @ ''x'' @ [BS, DQ] @ ''y'' @ [DQ])
     = Inr [Node ''a'' [] [CFG_STRING (''x'' @ [BS, DQ] @ ''y'')]]"
    by code_simp
  show "''x'' @ [BS, DQ] @ ''y'' \<noteq> ''x'' @ [DQ] @ ''y''"
    by (simp add: BS_def DQ_def)
qed

subsection \<open>Writing and reading back\<close>

text \<open>
  What \<^verbatim>\<open>_get_token\<close> answers from an offset does not depend on the line counter:
  \<open>tok b i\<close> is the kind and the limits of the token found from offset \<open>i\<close>.
\<close>

lemma skip_space_line: "fst (skip_space b i ln) = fst (skip_space b i ln')"
proof (induction b i ln arbitrary: ln' rule: skip_space.induct)
  case (1 b i ln)
  show ?case
  proof (cases "i < length b \<and> isspace (b ! i)")
    case True
    have "fst (skip_space b i ln) = fst (skip_space b (Suc i) (if b ! i = NL then ln + 1 else ln))"
      using True by (subst skip_space.simps) simp
    also have "\<dots> = fst (skip_space b (Suc i) (if b ! i = NL then ln' + 1 else ln'))"
      using True by (intro "1.IH") simp
    also have "\<dots> = fst (skip_space b i ln')"
      using True by (subst (2) skip_space.simps) simp
    finally show ?thesis .
  next
    case False
    then show ?thesis by (subst skip_space.simps, subst (2) skip_space.simps) auto
  qed
qed

lemma eat_space_line: "fst (eat_space b i ln) = fst (eat_space b i ln')"
proof (induction b i ln arbitrary: ln' rule: eat_space.induct)
  case (1 b i ln)
  show ?case
  proof (cases "i < length b")
    case False
    then show ?thesis by (subst eat_space.simps, subst (2) eat_space.simps) simp
  next
    case True
    show ?thesis
    proof (cases "b ! i = CHR ''#''")
      case hash: True
      have "fst (eat_space b i ln) = fst (eat_space b (skip_comment b i) (ln + 1))"
        using True hash by (subst eat_space.simps) simp
      also have "\<dots> = fst (eat_space b (skip_comment b i) (ln' + 1))"
        using True hash by (intro "1.IH"(1)) simp_all
      also have "\<dots> = fst (eat_space b i ln')"
        using True hash by (subst (2) eat_space.simps) simp
      finally show ?thesis .
    next
      case nohash: False
      show ?thesis
      proof (cases "isspace (b ! i)")
        case sp: True
        have "fst (eat_space b i ln)
              = fst (eat_space b (fst (skip_space b i ln)) (snd (skip_space b i ln)))"
          using True nohash sp by (subst eat_space.simps) simp
        also have "\<dots> = fst (eat_space b (fst (skip_space b i ln)) (snd (skip_space b i ln')))"
          using True nohash sp by (intro "1.IH"(2)) simp_all
        also have "\<dots> = fst (eat_space b (fst (skip_space b i ln')) (snd (skip_space b i ln')))"
          using skip_space_line [of b i ln ln'] by simp
        also have "\<dots> = fst (eat_space b i ln')"
          using True nohash sp by (subst (2) eat_space.simps) simp
        finally show ?thesis .
      next
        case False
        with True nohash show ?thesis
          by (subst eat_space.simps, subst (2) eat_space.simps) simp
      qed
    qed
  qed
qed

definition tok :: "string \<Rightarrow> nat \<Rightarrow> token \<times> nat \<times> nat" where
  "tok b i =
     (let p = get_token \<lparr>fb = b, t = TOK_EOF, tb = 0, te = i, line = 0\<rparr>
      in (t p, tb p, te p))"

lemma get_token_tok:
  "fb (get_token q) = fb q"
  "(t (get_token q), tb (get_token q), te (get_token q)) = tok (fb q) (te q)"
proof -
  show "fb (get_token q) = fb q"
    by (simp add: get_token_def Let_def)
  have "fst (eat_space (fb q) (te q) (line q)) = fst (eat_space (fb q) (te q) 0)"
    by (rule eat_space_line)
  then show "(t (get_token q), tb (get_token q), te (get_token q)) = tok (fb q) (te q)"
    by (simp add: tok_def get_token_def Let_def)
qed


lemma isspace_not_hash: "isspace c \<Longrightarrow> c \<noteq> CHR ''#''"
  by (auto simp: isspace_def)

lemma eat_space_one:
  assumes "isspace c"
  shows "fst (eat_space (pre @ c # rest) (length pre) ln)
       = fst (eat_space (pre @ c # rest) (Suc (length pre)) ln')"
proof -
  let ?b = "pre @ c # rest" and ?i = "length pre"
  let ?l1 = "if c = NL then ln + 1 else ln"
  have i: "?i < length ?b" "?b ! ?i = c" by simp_all
  have s: "skip_space ?b ?i ln = skip_space ?b (Suc ?i) ?l1"
    using i assms by (subst skip_space.simps) simp
  have "fst (eat_space ?b ?i ln)
        = fst (eat_space ?b (fst (skip_space ?b ?i ln)) (snd (skip_space ?b ?i ln)))"
    using i assms isspace_not_hash [OF assms] by (subst eat_space.simps) simp
  also have "\<dots> = fst (eat_space ?b (fst (skip_space ?b (Suc ?i) ?l1)) (snd (skip_space ?b (Suc ?i) ?l1)))"
    by (simp only: s)
  also have "\<dots> = fst (eat_space ?b (Suc ?i) ln')"
  proof (cases "Suc ?i < length ?b \<and> isspace (?b ! Suc ?i)")
    case True
    then have nh: "?b ! Suc ?i \<noteq> CHR ''#''" by (auto dest: isspace_not_hash)
    have "fst (eat_space ?b (Suc ?i) ln')
          = fst (eat_space ?b (fst (skip_space ?b (Suc ?i) ln')) (snd (skip_space ?b (Suc ?i) ln')))"
      using True nh by (subst eat_space.simps) simp
    also have "\<dots> = fst (eat_space ?b (fst (skip_space ?b (Suc ?i) ?l1)) (snd (skip_space ?b (Suc ?i) ln')))"
      using skip_space_line [of ?b "Suc ?i" ln' ?l1] by simp
    also have "\<dots> = fst (eat_space ?b (fst (skip_space ?b (Suc ?i) ?l1)) (snd (skip_space ?b (Suc ?i) ?l1)))"
      by (rule eat_space_line)
    finally show ?thesis by simp
  next
    case False
    then have "skip_space ?b (Suc ?i) ?l1 = (Suc ?i, ?l1)"
      by (subst skip_space.simps) auto
    then show ?thesis using eat_space_line [of ?b "Suc ?i" ?l1 ln'] by simp
  qed
  finally show ?thesis .
qed

lemma eat_space_ws:
  "list_all isspace ws \<Longrightarrow>
   fst (eat_space (pre @ ws @ rest) (length pre) ln)
     = fst (eat_space (pre @ ws @ rest) (length pre + length ws) ln)"
proof (induction ws arbitrary: pre)
  case Nil
  show ?case by simp
next
  case (Cons c ws)
  then have c: "isspace c" and ws: "list_all isspace ws" by simp_all
  have "fst (eat_space (pre @ (c # ws) @ rest) (length pre) ln)
        = fst (eat_space (pre @ c # (ws @ rest)) (Suc (length pre)) ln)"
    using eat_space_one [OF c, of pre "ws @ rest" ln ln] by simp
  also have "\<dots> = fst (eat_space ((pre @ [c]) @ ws @ rest) (length (pre @ [c])) ln)"
    by simp
  also have "\<dots> = fst (eat_space ((pre @ [c]) @ ws @ rest) (length (pre @ [c]) + length ws) ln)"
    using ws by (rule Cons.IH)
  finally show ?case by simp
qed

lemma tok_eat: "fst (eat_space b i 0) = fst (eat_space b j 0) \<Longrightarrow> tok b i = tok b j"
  by (simp add: tok_def get_token_def Let_def)

lemma tok_ws:
  "list_all isspace ws \<Longrightarrow>
   tok (pre @ ws @ rest) (length pre) = tok (pre @ ws @ rest) (length pre + length ws)"
  by (intro tok_eat eat_space_ws)

lemma eat_space_end: "eat_space b (length b) ln = (length b, ln)"
  by (subst eat_space.simps) simp

lemma tok_eof: "tok b (length b) = (TOK_EOF, length b, length b)"
  by (simp add: tok_def get_token_def eat_space_end Let_def)

lemma tok_at:
  assumes "i < length b" and "b ! i \<noteq> CHR ''#''" and "\<not> isspace (b ! i)"
  shows "tok b i =
     (if b ! i = CHR ''{'' then (TOK_SECTION_B, i, Suc i)
      else if b ! i = CHR ''}'' then (TOK_SECTION_E, i, Suc i)
      else if b ! i = CHR ''['' then (TOK_ARRAY_B, i, Suc i)
      else if b ! i = CHR '']'' then (TOK_ARRAY_E, i, Suc i)
      else if b ! i = CHR '','' then (TOK_COMMA, i, Suc i)
      else if b ! i = CHR ''='' then (TOK_EQ, i, Suc i)
      else if b ! i = DQ then
        (TOK_STRING, i,
         if scan_string b (Suc i) \<noteq> length b then Suc (scan_string b (Suc i))
         else scan_string b (Suc i))
      else if b ! i = CHR ''.'' then
        (snd (scan_number b (Suc i) TOK_FLOAT), i, fst (scan_number b (Suc i) TOK_FLOAT))
      else if isdigit (b ! i) then
        (snd (scan_number b (Suc i) TOK_INT), i, fst (scan_number b (Suc i) TOK_INT))
      else (TOK_IDENTIFIER, i, scan_ident b i))"
proof -
  have e: "eat_space b i 0 = (i, 0)"
    using assms by (rule eat_space_stop)
  show ?thesis
    using assms(1) by (simp add: tok_def get_token_def e Let_def)
qed

definition punct :: "char \<Rightarrow> token" where
  "punct c =
     (if c = CHR ''{'' then TOK_SECTION_B else if c = CHR ''}'' then TOK_SECTION_E
      else if c = CHR ''['' then TOK_ARRAY_B else if c = CHR '']'' then TOK_ARRAY_E
      else if c = CHR '','' then TOK_COMMA else TOK_EQ)"

lemma tok_punct:
  assumes "c \<in> set ''{}[],=''"
  shows "tok (pre @ c # rest) (length pre) = (punct c, length pre, Suc (length pre))"
proof -
  have "c \<noteq> CHR ''#''" "\<not> isspace c" using assms by (auto simp: isspace_def)
  then have "tok (pre @ c # rest) (length pre) =
     (if c = CHR ''{'' then (TOK_SECTION_B, length pre, Suc (length pre))
      else if c = CHR ''}'' then (TOK_SECTION_E, length pre, Suc (length pre))
      else if c = CHR ''['' then (TOK_ARRAY_B, length pre, Suc (length pre))
      else if c = CHR '']'' then (TOK_ARRAY_E, length pre, Suc (length pre))
      else if c = CHR '','' then (TOK_COMMA, length pre, Suc (length pre))
      else (TOK_EQ, length pre, Suc (length pre)))"
    using assms by (subst tok_at) auto
  then show ?thesis by (simp add: punct_def)
qed

text \<open>
  A key the writer can give back: the text of an identifier token, without NUL.
\<close>

definition ident_char :: "char \<Rightarrow> bool" where
  "ident_char c = (\<not> isspace c \<and> c \<noteq> CHR ''#'' \<and> c \<noteq> CHR ''='')"

definition ident_start :: "char \<Rightarrow> bool" where
  "ident_start c = (ident_char c \<and> c \<notin> set ''{}[],.'' \<and> c \<noteq> DQ \<and> \<not> isdigit c)"

definition ident_key :: "string \<Rightarrow> bool" where
  "ident_key k = (k \<noteq> [] \<and> ident_start (hd k) \<and> list_all (\<lambda>c. ident_char c \<and> c \<noteq> NUL) k)"

lemma scan_ident_run:
  "list_all ident_char k \<Longrightarrow> rest = [] \<or> \<not> ident_char (hd rest) \<Longrightarrow>
   scan_ident (pre @ k @ rest) (length pre) = length pre + length k"
proof (induction k arbitrary: pre)
  case Nil
  show ?case
  proof (cases rest)
    case Nil
    then show ?thesis by (subst scan_ident.simps) simp
  next
    case (Cons d rest')
    with Nil.prems show ?thesis
      by (subst scan_ident.simps) (auto simp: ident_char_def)
  qed
next
  case (Cons c k)
  then have c: "ident_char c" and k: "list_all ident_char k" by simp_all
  have "scan_ident (pre @ (c # k) @ rest) (length pre)
        = scan_ident ((pre @ [c]) @ k @ rest) (length (pre @ [c]))"
    using c by (subst scan_ident.simps) (simp add: ident_char_def)
  also have "\<dots> = length (pre @ [c]) + length k"
    using k Cons.prems(2) by (rule Cons.IH)
  finally show ?case by simp
qed

lemma tok_ident:
  assumes "ident_key k" and "rest = [] \<or> \<not> ident_char (hd rest)"
  shows "tok (pre @ k @ rest) (length pre) = (TOK_IDENTIFIER, length pre, length pre + length k)"
proof -
  from assms(1) obtain c k' where k: "k = c # k'" and c: "ident_start c"
    and all: "list_all ident_char k"
    by (cases k) (auto simp: ident_key_def list_all_iff)
  let ?b = "pre @ k @ rest"
  have i: "length pre < length ?b" "?b ! length pre = c" using k by simp_all
  have "tok ?b (length pre) = (TOK_IDENTIFIER, length pre, scan_ident ?b (length pre))"
    using i c by (subst tok_at) (auto simp: ident_start_def ident_char_def)
  with scan_ident_run [OF all assms(2), of pre] show ?thesis by simp
qed

lemma isdigit_plain:
  assumes "isdigit c"
  shows "c \<noteq> CHR ''#''" "\<not> isspace c" "c \<noteq> CHR ''{''" "c \<noteq> CHR ''}''" "c \<noteq> CHR ''[''"
    "c \<noteq> CHR '']''" "c \<noteq> CHR '',''" "c \<noteq> CHR ''=''" "c \<noteq> DQ" "c \<noteq> CHR ''.''"
  using assms by (auto simp: isdigit_def isspace_def DQ_def)

lemma scan_number_digits:
  "list_all isdigit ds \<Longrightarrow>
   rest = [] \<or> (\<not> isdigit (hd rest) \<and> (hd rest \<noteq> CHR ''.'' \<or> tk = TOK_FLOAT)) \<Longrightarrow>
   scan_number (pre @ ds @ rest) (length pre) tk = (length pre + length ds, tk)"
proof (induction ds arbitrary: pre)
  case Nil
  show ?case
  proof (cases rest)
    case Nil
    then show ?thesis by (subst scan_number.simps) simp
  next
    case (Cons d rest')
    with Nil.prems show ?thesis
      by (subst scan_number.simps) auto
  qed
next
  case (Cons c ds)
  then have c: "isdigit c" and ds: "list_all isdigit ds" by simp_all
  have "scan_number (pre @ (c # ds) @ rest) (length pre) tk
        = scan_number ((pre @ [c]) @ ds @ rest) (length (pre @ [c])) tk"
    using c isdigit_plain(10) [OF c] by (subst scan_number.simps) simp
  also have "\<dots> = (length (pre @ [c]) + length ds, tk)"
    using ds Cons.prems(2) by (rule Cons.IH)
  finally show ?case by simp
qed

lemma tok_int:
  assumes "ds \<noteq> []" and "list_all isdigit ds"
    and "rest = [] \<or> (\<not> isdigit (hd rest) \<and> hd rest \<noteq> CHR ''.'')"
  shows "tok (pre @ ds @ rest) (length pre) = (TOK_INT, length pre, length pre + length ds)"
proof -
  from assms obtain c ds' where ds: "ds = c # ds'" and c: "isdigit c"
    and all: "list_all isdigit ds'"
    by (cases ds) auto
  let ?b = "pre @ ds @ rest"
  have i: "length pre < length ?b" "?b ! length pre = c" using ds by simp_all
  have "tok ?b (length pre)
        = (snd (scan_number ?b (Suc (length pre)) TOK_INT), length pre,
           fst (scan_number ?b (Suc (length pre)) TOK_INT))"
    using i isdigit_plain [OF c] c by (subst tok_at) simp_all
  moreover have "scan_number ((pre @ [c]) @ ds' @ rest) (length (pre @ [c])) TOK_INT
        = (length (pre @ [c]) + length ds', TOK_INT)"
    using all assms(3) by (intro scan_number_digits) auto
  ultimately show ?thesis using ds by simp
qed


lemma scan_number_skip:
  "list_all isdigit ds \<Longrightarrow>
   scan_number (pre @ ds @ rest) (length pre) tk
     = scan_number (pre @ ds @ rest) (length pre + length ds) tk"
proof (induction ds arbitrary: pre)
  case Nil
  show ?case by simp
next
  case (Cons c ds)
  then have c: "isdigit c" and ds: "list_all isdigit ds" by simp_all
  have "scan_number (pre @ (c # ds) @ rest) (length pre) tk
        = scan_number ((pre @ [c]) @ ds @ rest) (length (pre @ [c])) tk"
    using c isdigit_plain(10) [OF c] by (subst scan_number.simps) simp
  also have "\<dots> = scan_number ((pre @ [c]) @ ds @ rest) (length (pre @ [c]) + length ds) tk"
    using ds by (rule Cons.IH)
  finally show ?case by simp
qed

lemma scan_number_float:
  assumes "list_all isdigit ds" and "list_all isdigit es"
    and "rest = [] \<or> \<not> isdigit (hd rest)"
  shows "scan_number (pre @ (ds @ CHR ''.'' # es) @ rest) (length pre) TOK_INT
         = (length pre + length (ds @ CHR ''.'' # es), TOK_FLOAT)"
proof -
  let ?b = "pre @ (ds @ CHR ''.'' # es) @ rest"
  have "scan_number ?b (length pre) TOK_INT
        = scan_number (pre @ ds @ (CHR ''.'' # es @ rest)) (length pre + length ds) TOK_INT"
    using scan_number_skip [OF assms(1), of pre "CHR ''.'' # es @ rest" TOK_INT] by simp
  also have "\<dots> = scan_number ((pre @ ds @ [CHR ''.'']) @ es @ rest)
                      (length (pre @ ds @ [CHR ''.''])) TOK_FLOAT"
    by (subst scan_number.simps) (simp add: nth_append)
  also have "\<dots> = (length (pre @ ds @ [CHR ''.'']) + length es, TOK_FLOAT)"
    using assms(2,3) by (intro scan_number_digits) auto
  finally show ?thesis by simp
qed

lemma tok_float:
  assumes "ds \<noteq> []" and "list_all isdigit ds" and "list_all isdigit es"
    and "rest = [] \<or> \<not> isdigit (hd rest)"
  shows "tok (pre @ (ds @ CHR ''.'' # es) @ rest) (length pre)
         = (TOK_FLOAT, length pre, length pre + length (ds @ CHR ''.'' # es))"
proof -
  from assms obtain c ds' where ds: "ds = c # ds'" and c: "isdigit c"
    and all: "list_all isdigit ds'"
    by (cases ds) auto
  let ?b = "pre @ (ds @ CHR ''.'' # es) @ rest"
  have i: "length pre < length ?b" "?b ! length pre = c" using ds by simp_all
  have "tok ?b (length pre)
        = (snd (scan_number ?b (Suc (length pre)) TOK_INT), length pre,
           fst (scan_number ?b (Suc (length pre)) TOK_INT))"
    using i isdigit_plain [OF c] c by (subst tok_at) simp_all
  moreover have "scan_number ((pre @ [c]) @ (ds' @ CHR ''.'' # es) @ rest) (length (pre @ [c])) TOK_INT
        = (length (pre @ [c]) + length (ds' @ CHR ''.'' # es), TOK_FLOAT)"
    using all assms(3,4) by (rule scan_number_float)
  ultimately show ?thesis using ds by simp
qed

lemma tok_string:
  assumes "closed_body s"
  shows "tok (pre @ (DQ # s @ [DQ]) @ rest) (length pre)
         = (TOK_STRING, length pre, length pre + length (DQ # s @ [DQ]))"
proof -
  let ?b = "pre @ (DQ # s @ [DQ]) @ rest"
  have i: "length pre < length ?b" "?b ! length pre = DQ" by simp_all
  have "scan_string ((pre @ [DQ]) @ s @ DQ # rest) (length (pre @ [DQ]))
        = length (pre @ [DQ]) + length s"
    using assms by (rule scan_string_body)
  then have s: "scan_string ?b (Suc (length pre)) = Suc (length pre + length s)" by simp
  show ?thesis
    using i s by (subst tok_at) (simp_all add: DQ_plain)
qed

text \<open>
  \<^verbatim>\<open>strtol\<close> reads back what \<^verbatim>\<open>%d\<close> printed for an integer that is not negative.
  \<open>lex_at p pre rest\<close>: the file is \<open>pre @ rest\<close> and the current token of \<open>p\<close> is the
  one found from the end of \<open>pre\<close>.
\<close>

lemma isdigit_char_of: "(d::nat) < 10 \<Longrightarrow> isdigit (char_of (48 + d))"
  by (simp add: isdigit_def)

lemma digit_val_char_of: "(d::nat) < 10 \<Longrightarrow> digit_val (char_of (48 + d)) = d"
  by (simp add: digit_val_def)

lemma digits_isdigit: "list_all isdigit (digits n)"
proof (induction n rule: digits.induct)
  case (1 n)
  show ?case
  proof (cases "n < 10")
    case True
    then show ?thesis by (subst digits.simps) (simp add: isdigit_char_of)
  next
    case False
    with 1 show ?thesis by (subst digits.simps) (simp add: isdigit_char_of)
  qed
qed

lemma digits_nonempty: "digits n \<noteq> []"
  by (subst digits.simps) simp

lemma digits_value: "foldl (\<lambda>a c. 10 * a + digit_val c) 0 (digits n) = n"
proof (induction n rule: digits.induct)
  case (1 n)
  show ?case
  proof (cases "n < 10")
    case True
    then show ?thesis by (subst digits.simps) (simp add: digit_val_char_of)
  next
    case False
    with 1 show ?thesis by (subst digits.simps) (simp add: digit_val_char_of)
  qed
qed

lemma takeWhile_run:
  "list_all P xs \<Longrightarrow> ys = [] \<or> \<not> P (hd ys) \<Longrightarrow> takeWhile P (xs @ ys) = xs"
  by (induction xs) (auto simp: takeWhile_eq_Nil_iff)

lemma strtol_digits:
  assumes "ds \<noteq> []" and "list_all isdigit ds" and "rest = [] \<or> \<not> isdigit (hd rest)"
  shows "strtol (ds @ rest) = min (int (foldl (\<lambda>a c. 10 * a + digit_val c) 0 ds)) LONG_MAX"
proof -
  from assms obtain c ds' where ds: "ds = c # ds'" and c: "isdigit c" by (cases ds) auto
  from c have nsp: "\<not> isspace c" and sg: "c \<noteq> CHR ''-''" "c \<noteq> CHR ''+''"
    by (auto simp: isdigit_def isspace_def)
  have "takeWhile isdigit (ds @ rest) = ds"
    using assms(2,3) by (rule takeWhile_run)
  with ds nsp sg show ?thesis
    by (simp add: strtol_def Let_def)
qed

lemma print_d_nonneg: "0 \<le> sint i \<Longrightarrow> print_d i = digits (nat (sint i))"
  by (simp add: print_d_def)

lemma strtol_print_d:
  fixes i :: "32 word"
  assumes "0 \<le> sint i" and "rest = [] \<or> \<not> isdigit (hd rest)"
  shows "word_of_int (strtol (print_d i @ rest)) = i"
proof -
  have "sint i < 2 ^ 31" using sint_lt [of i] by simp
  then have "int (nat (sint i)) \<le> LONG_MAX" using assms(1) by (simp add: LONG_MAX_def)
  then have "strtol (digits (nat (sint i)) @ rest) = int (nat (sint i))"
    using strtol_digits [OF digits_nonempty digits_isdigit assms(2), of "nat (sint i)"]
    by (simp add: digits_value)
  with assms(1) show ?thesis by (simp add: print_d_nonneg)
qed

lemma strtol_past_digits:
  assumes "ds \<noteq> []" and "list_all isdigit ds" and "\<not> isdigit c"
  shows "\<not> strtol_past (ds @ c # rest)"
proof -
  from assms obtain d ds' where ds: "ds = d # ds'" and d: "isdigit d" by (cases ds) auto
  from d have "\<not> isspace d" "d \<noteq> CHR ''-''" "d \<noteq> CHR ''+''"
    by (auto simp: isdigit_def isspace_def)
  with ds assms(3) show ?thesis
    by (simp add: strtol_past_def Let_def)
qed

definition lex_at :: "parser \<Rightarrow> string \<Rightarrow> string \<Rightarrow> bool" where
  "lex_at p pre rest =
     (fb p = pre @ rest \<and> (t p, tb p, te p) = tok (pre @ rest) (length pre))"

lemma lex_at_next: "fb p = pre @ rest \<Longrightarrow> te p = length pre \<Longrightarrow> lex_at (get_token p) pre rest"
  using get_token_tok [of p] by (simp add: lex_at_def)

lemma lex_at_ws:
  "list_all isspace ws \<Longrightarrow> lex_at p pre (ws @ rest) \<longleftrightarrow> lex_at p (pre @ ws) rest"
  using tok_ws [of ws pre rest] by (simp add: lex_at_def)

lemma lex_at_token:
  assumes "lex_at p pre (ws @ x @ rest)" and "list_all isspace ws"
    and "tok ((pre @ ws) @ x @ rest) (length (pre @ ws))
           = (tk, length (pre @ ws), length (pre @ ws) + length x)"
  shows "fb p = pre @ ws @ x @ rest" and "t p = tk" and "tb p = length pre + length ws"
    and "te p = length pre + length ws + length x"
    and "lex_at (get_token p) (pre @ ws @ x) rest"
proof -
  from assms(1,2) have a: "lex_at p (pre @ ws) (x @ rest)" by (simp add: lex_at_ws)
  with assms(3) show f: "fb p = pre @ ws @ x @ rest" and "t p = tk"
    and "tb p = length pre + length ws" and e: "te p = length pre + length ws + length x"
    by (simp_all add: lex_at_def)
  from f e show "lex_at (get_token p) (pre @ ws @ x) rest"
    by (intro lex_at_next) simp_all
qed

text \<open>
  The values the text format can express: an integer that is not negative (the
  language has no sign), the body of a terminated string literal without NUL, and a
  float that \<^verbatim>\<open>%f\<close> prints as digits, a point and digits that \<^verbatim>\<open>strtod\<close> converts back
  to it before any of the characters the writer puts after a value.
\<close>

definition float_ok :: "(string \<Rightarrow> 'r option) \<Rightarrow> ('r \<Rightarrow> string) \<Rightarrow> 'r \<Rightarrow> bool" where
  "float_ok sd pf r =
     ((\<exists>ds es. pf r = ds @ CHR ''.'' # es \<and> ds \<noteq> [] \<and> list_all isdigit ds \<and> list_all isdigit es)
      \<and> (\<forall>rest. sd (pf r @ CHR '','' # rest) = Some r \<and> sd (pf r @ CHR '']'' # rest) = Some r
                \<and> sd (pf r @ NL # rest) = Some r))"

fun wf_value :: "(string \<Rightarrow> 'r option) \<Rightarrow> ('r \<Rightarrow> string) \<Rightarrow> 'r config_value \<Rightarrow> bool" where
  "wf_value sd pf (CFG_INT i) = (0 \<le> sint i)"
| "wf_value sd pf (CFG_FLOAT r) = float_ok sd pf r"
| "wf_value sd pf (CFG_STRING s) = (closed_body s \<and> NUL \<notin> set s)"

definition delim :: "string \<Rightarrow> bool" where
  "delim rest = (\<exists>c r. rest = c # r \<and> (c = CHR '','' \<or> c = CHR '']'' \<or> c = NL))"

lemma delim_not_digit: "delim rest \<Longrightarrow> \<not> isdigit (hd rest) \<and> hd rest \<noteq> CHR ''.''"
  by (auto simp: delim_def isdigit_def NL_def)

lemma type_written:
  assumes "wf_value sd pf x" and "lex_at p pre (ws @ write_value pf x @ rest)"
    and "list_all isspace ws" and "delim rest"
  shows "type' sd p = Inr (x, get_token p)"
    and "lex_at (get_token p) (pre @ ws @ write_value pf x) rest"
proof -
  define fl where "fl = (if length (fb p) mod PAGE_SIZE = 0 then [] else [NUL])"
  have "type' sd p = Inr (x, get_token p)
        \<and> lex_at (get_token p) (pre @ ws @ write_value pf x) rest"
  proof (cases x)
    case (CFG_INT i)
    with assms(1) have nn: "0 \<le> sint i" by simp
    let ?ds = "print_d i"
    have ds: "?ds \<noteq> []" "list_all isdigit ?ds"
      using nn by (simp_all add: print_d_nonneg digits_nonempty digits_isdigit)
    have w: "write_value pf x = ?ds" using CFG_INT by (simp add: write_value_def)
    have tk: "tok ((pre @ ws) @ ?ds @ rest) (length (pre @ ws))
              = (TOK_INT, length (pre @ ws), length (pre @ ws) + length ?ds)"
      using ds delim_not_digit [OF assms(4)] by (intro tok_int) auto
    note l = lex_at_token [OF assms(2) [unfolded w] assms(3) tk]
    from assms(4) obtain c r' where rest: "rest = c # r'"
      and cc: "c = CHR '','' \<or> c = CHR '']'' \<or> c = NL"
      unfolding delim_def by blast
    from cc have c: "\<not> isdigit c" by (auto simp: isdigit_def NL_def)
    have dr: "drop (tb p) (fb p) = ?ds @ rest" using l(1,3) by simp
    have rd: "readable p = ?ds @ c # r' @ fl"
      unfolding readable_def dr rest fl_def by simp
    have "word_of_int (strtol (?ds @ c # r' @ fl)) = i"
      using nn c by (intro strtol_print_d) auto
    moreover have "\<not> strtol_past (?ds @ c # r' @ fl)"
      using ds c by (rule strtol_past_digits)
    ultimately show ?thesis
      using l(2,5) CFG_INT w unfolding type'_def rd by (simp add: match_def)
  next
    case (CFG_FLOAT r)
    with assms(1) obtain ds es where
      pf: "pf r = ds @ CHR ''.'' # es" and ds: "ds \<noteq> []" "list_all isdigit ds"
      and es: "list_all isdigit es"
      and sd: "\<And>rest. sd (pf r @ CHR '','' # rest) = Some r"
        "\<And>rest. sd (pf r @ CHR '']'' # rest) = Some r"
        "\<And>rest. sd (pf r @ NL # rest) = Some r"
      by (auto simp: float_ok_def)
    have w: "write_value pf x = ds @ CHR ''.'' # es" using CFG_FLOAT pf by (simp add: write_value_def)
    have tk: "tok ((pre @ ws) @ (ds @ CHR ''.'' # es) @ rest) (length (pre @ ws))
              = (TOK_FLOAT, length (pre @ ws), length (pre @ ws) + length (ds @ CHR ''.'' # es))"
      using ds es delim_not_digit [OF assms(4)] by (intro tok_float) auto
    note l = lex_at_token [OF assms(2) [unfolded w] assms(3) tk]
    from assms(4) obtain c r' where rest: "rest = c # r'"
      and c: "c = CHR '','' \<or> c = CHR '']'' \<or> c = NL"
      unfolding delim_def by blast
    have dr: "drop (tb p) (fb p) = pf r @ rest" using l(1,3) pf by simp
    have rd: "readable p = pf r @ c # r' @ fl"
      unfolding readable_def dr rest fl_def by simp
    have "sd (pf r @ c # r' @ fl) = Some r" using c sd by auto
    then show ?thesis
      using l(2,5) CFG_FLOAT w unfolding type'_def rd by (simp add: match_def)
  next
    case (CFG_STRING s)
    with assms(1) have cb: "closed_body s" and nn: "NUL \<notin> set s" by simp_all
    have w: "write_value pf x = DQ # s @ [DQ]" using CFG_STRING by (simp add: write_value_def)
    have tk: "tok ((pre @ ws) @ (DQ # s @ [DQ]) @ rest) (length (pre @ ws))
              = (TOK_STRING, length (pre @ ws), length (pre @ ws) + length (DQ # s @ [DQ]))"
      using cb by (rule tok_string)
    note l = lex_at_token [OF assms(2) [unfolded w] assms(3) tk]
    have d: "take (te p - 1 - (tb p + 1)) (drop (tb p + 1) (fb p)) = s"
      using l(1,3,4) by simp
    have tw: "takeWhile (\<lambda>c. c \<noteq> NUL) s = s" using nn by (auto simp: takeWhile_eq_all_conv)
    have "get_token (p\<lparr>tb := tb p + 1, te := te p - 1, te := te p - 1 + 1\<rparr>) = get_token p"
      using l(4) by (intro get_token_cong) simp_all
    then show ?thesis
      using l(2,3,4,5) CFG_STRING w d tw
      by (simp add: type'_def match_def dup_tok_def Let_def)
  qed
  then show "type' sd p = Inr (x, get_token p)"
    and "lex_at (get_token p) (pre @ ws @ write_value pf x) rest" by simp_all
qed

lemma lex_at_punct:
  assumes "lex_at p pre (ws @ c # rest)" and "list_all isspace ws" and "c \<in> set ''{}[],=''"
  shows "t p = punct c" and "lex_at (get_token p) (pre @ ws @ [c]) rest"
proof -
  have tk: "tok ((pre @ ws) @ [c] @ rest) (length (pre @ ws))
            = (punct c, length (pre @ ws), length (pre @ ws) + length [c])"
    using tok_punct [OF assms(3), of "pre @ ws" rest] by simp
  from assms(1) have a: "lex_at p pre (ws @ [c] @ rest)" by simp
  note l = lex_at_token [OF a assms(2) tk]
  from l(2) show "t p = punct c" .
  from l(5) show "lex_at (get_token p) (pre @ ws @ [c]) rest" .
qed

lemma array_written:
  "list_all (wf_value sd pf) xs \<Longrightarrow>
   lex_at p pre (ws @ write_array pf xs @ CHR '']'' # rest) \<Longrightarrow>
   list_all isspace ws \<Longrightarrow> length xs < f \<Longrightarrow>
   \<exists>q. array_elems sd f p = Inr (xs, q) \<and> lex_at q (pre @ ws @ write_array pf xs) (CHR '']'' # rest)"
proof (induction xs arbitrary: p pre ws f)
  case Nil
  then obtain g where f: "f = Suc g" by (cases f) auto
  from Nil.prems(2) have a: "lex_at p pre (ws @ CHR '']'' # rest)" by simp
  from lex_at_punct(1) [OF a Nil.prems(3)] have "t p = TOK_ARRAY_E" by (simp add: punct_def)
  moreover from a Nil.prems(3) have "lex_at p (pre @ ws) (CHR '']'' # rest)"
    by (simp add: lex_at_ws)
  ultimately show ?case using f by simp
next
  case (Cons x xs)
  from Cons.prems(4) obtain g where f: "f = Suc g" and g: "length xs < g" by (cases f) auto
  from Cons.prems(1) have wx: "wf_value sd pf x" and wxs: "list_all (wf_value sd pf) xs"
    by simp_all
  let ?sep = "if xs \<noteq> [] then '', '' else []"
  let ?rest = "?sep @ write_array pf xs @ CHR '']'' # rest"
  have d: "delim ?rest" by (cases xs) (simp_all add: delim_def)
  from Cons.prems(2) have a: "lex_at p pre (ws @ write_value pf x @ ?rest)" by simp
  note ty = type_written [OF wx a Cons.prems(3) d]
  from type'_Inr [OF ty(1)] have ne: "t p \<noteq> TOK_ARRAY_E" by (auto simp: is_type_def)
  show ?case
  proof (cases "xs = []")
    case True
    with ty(2) have b: "lex_at (get_token p) (pre @ ws @ write_value pf x) ([] @ CHR '']'' # rest)"
      by simp
    from lex_at_punct(1) [OF b] have nc: "t (get_token p) \<noteq> TOK_COMMA" by (simp add: punct_def)
    from b True have "lex_at (get_token p) (pre @ ws @ write_value pf x)
                        ([] @ write_array pf xs @ CHR '']'' # rest)" by simp
    from Cons.IH [OF wxs this _ g] obtain q where
      "array_elems sd g (get_token p) = Inr (xs, q)"
      "lex_at q ((pre @ ws @ write_value pf x) @ [] @ write_array pf xs) (CHR '']'' # rest)"
      by auto
    with f ne ty(1) nc True show ?thesis by simp
  next
    case False
    with ty(2) have b: "lex_at (get_token p) (pre @ ws @ write_value pf x)
        ([] @ CHR '','' # ('' '' @ write_array pf xs @ CHR '']'' # rest))"
      by simp
    have c: "t (get_token p) = TOK_COMMA"
      using lex_at_punct(1) [OF b] by (simp add: punct_def)
    have "lex_at (get_token (get_token p)) ((pre @ ws @ write_value pf x) @ [] @ [CHR '',''])
            ('' '' @ write_array pf xs @ CHR '']'' # rest)"
      using lex_at_punct(2) [OF b] by simp
    from Cons.IH [OF wxs this _ g] obtain q where
      "array_elems sd g (get_token (get_token p)) = Inr (xs, q)"
      "lex_at q (((pre @ ws @ write_value pf x) @ [] @ [CHR '','']) @ '' '' @ write_array pf xs)
         (CHR '']'' # rest)"
      by (auto simp: isspace_def)
    with f ne ty(1) c False show ?thesis by (simp add: match_def)
  qed
qed

definition value_text :: "('r \<Rightarrow> string) \<Rightarrow> 'r config_value list \<Rightarrow> string" where
  "value_text pf h =
     (if tl h \<noteq> [] then ''['' @ write_array pf h @ '']'' else write_value pf (hd h))"

lemma value_written:
  assumes "h \<noteq> []" and "list_all (wf_value sd pf) h"
    and "lex_at p pre (value_text pf h @ NL # post)" and "length h < f"
  shows "\<exists>q. value' sd f p = Inr (h, q) \<and> lex_at q (pre @ value_text pf h) (NL # post)"
proof (cases "tl h \<noteq> []")
  case True
  with assms(3) have a: "lex_at p pre ([] @ CHR ''['' # (write_array pf h @ CHR '']'' # NL # post))"
    by (simp add: value_text_def)
  have tp: "t p = TOK_ARRAY_B" using lex_at_punct(1) [OF a] by (simp add: punct_def)
  have "lex_at (get_token p) (pre @ ''['') ([] @ write_array pf h @ CHR '']'' # NL # post)"
    using lex_at_punct(2) [OF a] by simp
  from array_written [OF assms(2) this _ assms(4)] obtain q where
    q: "array_elems sd f (get_token p) = Inr (h, q)"
    and l: "lex_at q ((pre @ ''['') @ write_array pf h) ([] @ CHR '']'' # NL # post)"
    by auto
  have "t q = TOK_ARRAY_E" using lex_at_punct(1) [OF l] by (simp add: punct_def)
  moreover have "lex_at (get_token q) (pre @ value_text pf h) (NL # post)"
    using lex_at_punct(2) [OF l] True by (simp add: value_text_def)
  ultimately show ?thesis using tp q by (simp add: value'_def match_def)
next
  case False
  with assms(1) obtain x where h: "h = [x]" by (cases h) auto
  with assms(2) have wx: "wf_value sd pf x" by simp
  from assms(3) h have a: "lex_at p pre ([] @ write_value pf x @ NL # post)"
    by (simp add: value_text_def)
  have d: "delim (NL # post)" by (simp add: delim_def)
  note ty = type_written [OF wx a _ d]
  from type'_Inr [OF ty(1)] have "t p \<noteq> TOK_ARRAY_B" by (auto simp: is_type_def)
  with ty h show ?thesis by (simp add: value'_def value_text_def)
qed

text \<open>
  The trees the text format can express: every key is an identifier, a node without
  values is a section of such nodes, a node with values has no children.
\<close>

fun writable :: "(string \<Rightarrow> 'r option) \<Rightarrow> ('r \<Rightarrow> string) \<Rightarrow> 'r config_node \<Rightarrow> bool" where
  "writable sd pf (Node k c h) =
     (ident_key k
      \<and> (if h = [] then list_all (writable sd pf) c
          else c = [] \<and> list_all (wf_value sd pf) h))"

definition node_parses :: "(string \<Rightarrow> 'r option) \<Rightarrow> ('r \<Rightarrow> string) \<Rightarrow> 'r config_node \<Rightarrow> bool" where
  "node_parses sd pf n =
     (\<forall>p pre ws post level f.
        lex_at p pre (ws @ write_config' pf [n] level @ post) \<longrightarrow> list_all isspace ws \<longrightarrow>
        length (write_config' pf [n] level) \<le> f \<longrightarrow>
        t p = TOK_IDENTIFIER
        \<and> (\<exists>q. section' sd f p = Inr (n, q)
                \<and> lex_at q (pre @ ws @ write_config' pf [n] level) post))"

lemma write_config'_Cons:
  "write_config' pf (n # sib) level = write_config' pf [n] level @ write_config' pf sib level"
  by (cases n) (simp add: Let_def)

lemma write_config'_nonempty: "write_config' pf [n] level \<noteq> []"
  by (cases n) (simp add: Let_def)

lemma children_written:
  assumes "\<And>n. n \<in> set c \<Longrightarrow> node_parses sd pf n"
  shows "lex_at p pre (ws @ write_config' pf c level @ sp @ CHR ''}'' # post) \<Longrightarrow>
         list_all isspace ws \<Longrightarrow> list_all isspace sp \<Longrightarrow>
         length (write_config' pf c level) < f \<Longrightarrow>
         \<exists>q. section_children sd f p = Inr (c, q)
              \<and> lex_at q (pre @ ws @ write_config' pf c level) (sp @ CHR ''}'' # post)"
  using assms
proof (induction c arbitrary: p pre ws f)
  case Nil
  then obtain g where f: "f = Suc g" by (cases f) auto
  from Nil.prems(1) have a: "lex_at p pre ((ws @ sp) @ CHR ''}'' # post)" by simp
  have "t p = TOK_SECTION_E"
    using lex_at_punct(1) [OF a] Nil.prems(2,3) by (simp add: punct_def)
  moreover have "lex_at p (pre @ ws) (sp @ CHR ''}'' # post)"
    using Nil.prems(1,2) lex_at_ws [of ws p pre "sp @ CHR ''}'' # post"] by simp
  ultimately show ?case using f by simp
next
  case (Cons n c)
  let ?tn = "write_config' pf [n] level" and ?tc = "write_config' pf c level"
  have tx: "write_config' pf (n # c) level = ?tn @ ?tc" by (rule write_config'_Cons)
  have ne: "?tn \<noteq> []" by (rule write_config'_nonempty)
  from Cons.prems(4) tx ne obtain g where f: "f = Suc g" and g: "length ?tn \<le> g" "length ?tc < g"
    by (cases f; cases ?tn) auto
  have np: "node_parses sd pf n" using Cons.prems(5) by simp
  from Cons.prems(1) tx have a: "lex_at p pre (ws @ ?tn @ (?tc @ sp @ CHR ''}'' # post))"
    by simp
  from np [unfolded node_parses_def, rule_format, OF a Cons.prems(2) g(1)] obtain q1 where
    tp: "t p = TOK_IDENTIFIER" and s: "section' sd g p = Inr (n, q1)"
    and l: "lex_at q1 (pre @ ws @ ?tn) (?tc @ sp @ CHR ''}'' # post)"
    by auto
  from l have "lex_at q1 (pre @ ws @ ?tn) ([] @ ?tc @ sp @ CHR ''}'' # post)" by simp
  from Cons.IH [OF this _ Cons.prems(3) g(2)] Cons.prems(5) obtain q where
    "section_children sd g q1 = Inr (c, q)"
    "lex_at q ((pre @ ws @ ?tn) @ [] @ ?tc) (sp @ CHR ''}'' # post)"
    by auto
  with f tp s tx show ?case by simp
qed


lemma write_value_nonempty: "wf_value sd pf x \<Longrightarrow> write_value pf x \<noteq> []"
  by (cases x) (auto simp: write_value_def print_d_nonneg digits_nonempty float_ok_def)

lemma length_write_array:
  "list_all (wf_value sd pf) xs \<Longrightarrow> length xs \<le> length (write_array pf xs)"
proof (induction xs)
  case Nil
  show ?case by simp
next
  case (Cons x xs)
  then have "wf_value sd pf x" by simp
  then have "write_value pf x \<noteq> []" by (rule write_value_nonempty)
  then have "1 \<le> length (write_value pf x)" by (cases "write_value pf x") simp_all
  with Cons show ?case by simp
qed

lemma length_value_text:
  assumes "h \<noteq> []" and "list_all (wf_value sd pf) h"
  shows "length h \<le> length (value_text pf h)"
proof (cases "tl h \<noteq> []")
  case True
  with length_write_array [OF assms(2)] show ?thesis by (simp add: value_text_def)
next
  case False
  with assms(1) obtain x where h: "h = [x]" by (cases h) auto
  with assms(2) have "wf_value sd pf x" by simp
  then have "write_value pf x \<noteq> []" by (rule write_value_nonempty)
  then have "1 \<le> length (write_value pf x)" by (cases "write_value pf x") simp_all
  with h show ?thesis by (simp add: value_text_def)
qed

lemma node_written: "writable sd pf n \<Longrightarrow> node_parses sd pf n"
proof (induction n)
  case (Node k c h)
  from Node.prems have key: "ident_key k" by simp
  then have k_ne: "k \<noteq> []" and k_nul: "takeWhile (\<lambda>c. c \<noteq> NUL) k = k"
    by (auto simp: ident_key_def takeWhile_eq_all_conv list_all_iff)
  show ?case
    unfolding node_parses_def
  proof (intro allI impI)
    fix p pre ws post level f
    define space where "space = replicate (if level < MAX_INDENT then level else MAX_INDENT) CHR '' ''"
    define body where "body =
      (if h = [] then '' {'' @ [NL] @ write_config' pf c (level + 1) @ space @ ''}''
       else ''='' @ value_text pf h)"
    let ?tn = "write_config' pf [Node k c h] level"
    assume a: "lex_at p pre (ws @ ?tn @ post)" and w: "list_all isspace ws"
      and fl: "length ?tn \<le> f"
    have tx: "?tn = space @ k @ body @ [NL]"
      by (simp add: Let_def space_def body_def value_text_def)
    have sp: "list_all isspace space" by (simp add: space_def isspace_def list_all_iff)
    have stop: "\<not> ident_char (hd (body @ NL # post))"
      by (simp add: body_def ident_char_def isspace_def)
    have tk: "tok ((pre @ ws @ space) @ k @ (body @ NL # post)) (length (pre @ ws @ space))
              = (TOK_IDENTIFIER, length (pre @ ws @ space), length (pre @ ws @ space) + length k)"
      using key stop by (intro tok_ident) simp_all
    from a tx have a': "lex_at p pre ((ws @ space) @ k @ (body @ NL # post))" by simp
    have wsp: "list_all isspace (ws @ space)" using w sp by simp
    note l = lex_at_token [OF a' wsp, unfolded append_assoc, OF tk [unfolded append_assoc]]
    have tp: "t p = TOK_IDENTIFIER" by (rule l(2))
    have dk: "dup_tok p = Inr k"
      using l(1,3,4) k_nul by (simp add: dup_tok_def)
    have l1: "lex_at (get_token p) (pre @ ws @ space @ k) (body @ NL # post)"
      using l(5) by simp
    from fl tx k_ne obtain g where f: "f = Suc g" and g: "length (space @ k @ body) \<le> g"
      by (cases f) auto
    have "\<exists>q. section' sd f p = Inr (Node k c h, q) \<and> lex_at q (pre @ ws @ ?tn) post"
    proof (cases "h = []")
      case True
      with Node.prems have wc: "list_all (writable sd pf) c" by simp
      let ?tc = "write_config' pf c (level + 1)"
      have b: "body = '' {'' @ [NL] @ ?tc @ space @ ''}''" using True by (simp add: body_def)
      from l1 b have l1': "lex_at (get_token p) (pre @ ws @ space @ k)
          ('' '' @ CHR ''{'' # (NL # ?tc @ space @ CHR ''}'' # NL # post))" by simp
      have t1: "t (get_token p) = TOK_SECTION_B"
        using lex_at_punct(1) [OF l1'] by (simp add: punct_def isspace_def)
      have l2: "lex_at (get_token (get_token p)) (pre @ ws @ space @ k @ '' {'')
          ([NL] @ ?tc @ space @ CHR ''}'' # NL # post)"
        using lex_at_punct(2) [OF l1'] by (simp add: isspace_def)
      have np: "\<And>n. n \<in> set c \<Longrightarrow> node_parses sd pf n"
        using Node.IH wc by (simp add: list_all_iff)
      have gc: "length ?tc < g" using g b by simp
      from children_written [OF np l2 _ sp gc] obtain q3 where
        sc: "section_children sd g (get_token (get_token p)) = Inr (c, q3)"
        and l3: "lex_at q3 ((pre @ ws @ space @ k @ '' {'') @ [NL] @ ?tc)
                   (space @ CHR ''}'' # NL # post)"
        by (auto simp: isspace_def NL_def)
      have t3: "t q3 = TOK_SECTION_E"
        using lex_at_punct(1) [OF l3 sp] by (simp add: punct_def)
      have "lex_at (get_token q3) (((pre @ ws @ space @ k @ '' {'') @ [NL] @ ?tc) @ space @ ''}'')
              ([NL] @ post)"
        using lex_at_punct(2) [OF l3 sp] by simp
      then have "lex_at (get_token q3) (pre @ ws @ ?tn) post"
        using lex_at_ws [of "[NL]" "get_token q3"
            "((pre @ ws @ space @ k @ '' {'') @ [NL] @ ?tc) @ space @ ''}''" post] tx b
        by (simp add: isspace_def NL_def)
      with f dk tp t1 sc t3 True show ?thesis by (simp add: match_def)
    next
      case False
      with Node.prems have c: "c = []" and wh: "list_all (wf_value sd pf) h" by simp_all
      have b: "body = ''='' @ value_text pf h" using False by (simp add: body_def)
      from l1 b have l1': "lex_at (get_token p) (pre @ ws @ space @ k)
          ([] @ CHR ''='' # (value_text pf h @ NL # post))" by simp
      have t1: "t (get_token p) = TOK_EQ"
        using lex_at_punct(1) [OF l1'] by (simp add: punct_def)
      have l2: "lex_at (get_token (get_token p)) (pre @ ws @ space @ k @ ''='')
          (value_text pf h @ NL # post)"
        using lex_at_punct(2) [OF l1'] by simp
      have "length h < g"
        using g b k_ne length_value_text [OF False wh, of] by (cases k) auto
      from value_written [OF False wh l2 this] obtain q where
        v: "value' sd g (get_token (get_token p)) = Inr (h, q)"
        and l3: "lex_at q ((pre @ ws @ space @ k @ ''='') @ value_text pf h) ([NL] @ post)"
        by auto
      have "lex_at q (pre @ ws @ ?tn) post"
        using l3 lex_at_ws [of "[NL]" q "(pre @ ws @ space @ k @ ''='') @ value_text pf h" post] tx b
        by (simp add: isspace_def NL_def)
      with f dk tp t1 v False c show ?thesis by (simp add: match_def)
    qed
    with tp show "t p = TOK_IDENTIFIER
        \<and> (\<exists>q. section' sd f p = Inr (Node k c h, q) \<and> lex_at q (pre @ ws @ ?tn) post)"
      by simp
  qed
qed

lemma file_written:
  "list_all (writable sd pf) ns \<Longrightarrow> lex_at p pre (write_config' pf ns 0) \<Longrightarrow>
   length (write_config' pf ns 0) < f \<Longrightarrow> \<exists>q. file' sd f p = Inr (ns, q)"
proof (induction ns arbitrary: p pre f)
  case Nil
  then obtain g where f: "f = Suc g" by (cases f) auto
  from Nil.prems(2) have "t p = TOK_EOF"
    using tok_eof [of pre] by (simp add: lex_at_def)
  with f show ?case by simp
next
  case (Cons n ns)
  let ?tn = "write_config' pf [n] 0" and ?ts = "write_config' pf ns 0"
  have tx: "write_config' pf (n # ns) 0 = ?tn @ ?ts" by (rule write_config'_Cons)
  have ne: "?tn \<noteq> []" by (rule write_config'_nonempty)
  from Cons.prems(3) tx ne obtain g where f: "f = Suc g" and g: "length ?tn \<le> g" "length ?ts < g"
    by (cases f; cases ?tn) auto
  from Cons.prems(1) have np: "node_parses sd pf n" and wns: "list_all (writable sd pf) ns"
    by (simp_all add: node_written)
  from Cons.prems(2) tx have a: "lex_at p pre ([] @ ?tn @ ?ts)" by simp
  from np [unfolded node_parses_def, rule_format, OF a _ g(1)] obtain q1 where
    tp: "t p = TOK_IDENTIFIER" and s: "section' sd g p = Inr (n, q1)"
    and l: "lex_at q1 (pre @ ?tn) ?ts"
    by auto
  from Cons.IH [OF wns l g(2)] obtain q where "file' sd g q1 = Inr (ns, q)" by auto
  with f tp s show ?case by simp
qed

text \<open>
  Every non-empty Document of writable nodes is read back from its own text.
\<close>

lemma write_read_config:
  assumes "list_all (writable sd pf) root" and "root \<noteq> []"
  shows "read_config sd (write_config pf root) = Inr root"
proof -
  let ?file = "write_config pf root"
  let ?p = "get_token \<lparr>fb = ?file, t = TOK_EOF, tb = 0, te = 0, line = 1\<rparr>"
  have "lex_at ?p [] (write_config' pf root 0)"
    by (intro lex_at_next) (simp_all add: write_config_def)
  from file_written [OF assms(1) this, of "2 * length ?file + 1"] obtain q where
    "file' sd (2 * length ?file + 1) ?p = Inr (root, q)"
    by (auto simp: write_config_def)
  with assms(2) show ?thesis
    by (simp add: read_config_def Let_def del: file'.simps)
qed


subsection \<open>The fuel given by \<^verbatim>\<open>read_config\<close> is enough\<close>

text \<open>
  What is left of the file: the bytes behind the current token, and one more while the
  current token is not the end of the file. Every \<^verbatim>\<open>match\<close> lowers it, and each level of
  the descent is entered with a token in hand, so twice the length of the file bounds
  the calls of the parser.
\<close>

definition left :: "parser \<Rightarrow> nat" where
  "left p = length (fb p) - te p + (if t p = TOK_EOF then 0 else 1)"

lemma eat_space_ge: "i \<le> fst (eat_space b i ln)"
proof (induction b i ln rule: eat_space.induct)
  case (1 b i ln)
  show ?case
  proof (cases "i < length b")
    case False
    then show ?thesis by (subst eat_space.simps) simp
  next
    case True
    show ?thesis
    proof (cases "b ! i = CHR ''#''")
      case hash: True
      have "i \<le> skip_comment b i" by (rule skip_comment_ge)
      also have "\<dots> \<le> fst (eat_space b (skip_comment b i) (ln + 1))"
        using True hash by (intro "1.IH"(1)) simp_all
      also have "\<dots> = fst (eat_space b i ln)"
        using True hash by (subst (2) eat_space.simps) simp
      finally show ?thesis .
    next
      case nohash: False
      show ?thesis
      proof (cases "isspace (b ! i)")
        case sp: True
        have "i \<le> fst (skip_space b i ln)" by (rule skip_space_ge)
        also have "\<dots> \<le> fst (eat_space b (fst (skip_space b i ln)) (snd (skip_space b i ln)))"
          using True nohash sp by (intro "1.IH"(2)) simp_all
        also have "\<dots> = fst (eat_space b i ln)"
          using True nohash sp by (subst (2) eat_space.simps) simp
        finally show ?thesis .
      next
        case False
        with True nohash show ?thesis by (subst eat_space.simps) simp
      qed
    qed
  qed
qed

lemma eat_space_fixed:
  "fst (eat_space b i ln) < length b \<Longrightarrow>
   b ! fst (eat_space b i ln) \<noteq> CHR ''#'' \<and> \<not> isspace (b ! fst (eat_space b i ln))"
proof (induction b i ln rule: eat_space.induct)
  case (1 b i ln)
  show ?case
  proof (cases "i < length b")
    case False
    with "1.prems" show ?thesis by (subst (asm) eat_space.simps) simp
  next
    case True
    show ?thesis
    proof (cases "b ! i = CHR ''#''")
      case hash: True
      have e: "eat_space b i ln = eat_space b (skip_comment b i) (ln + 1)"
        using True hash by (subst eat_space.simps) simp
      from "1.IH"(1) [OF True hash] "1.prems" show ?thesis unfolding e by simp
    next
      case nohash: False
      show ?thesis
      proof (cases "isspace (b ! i)")
        case sp: True
        have e: "eat_space b i ln
                 = eat_space b (fst (skip_space b i ln)) (snd (skip_space b i ln))"
          using True nohash sp by (subst eat_space.simps) simp
        from "1.IH"(2) [OF True nohash sp] "1.prems" show ?thesis unfolding e by simp
      next
        case False
        with True nohash have "eat_space b i ln = (i, ln)" by (rule eat_space_stop)
        with nohash False show ?thesis by simp
      qed
    qed
  qed
qed

lemma scan_string_ge: "i \<le> scan_string b i"
proof (induction b i rule: scan_string.induct)
  case (1 b i)
  show ?case
  proof (cases "i < length b \<and> b ! i \<noteq> DQ")
    case True
    let ?j = "if b ! i = BS \<and> Suc i \<noteq> length b then Suc (Suc i) else Suc i"
    have "i \<le> ?j" by simp
    also have "?j \<le> scan_string b ?j" using True by (intro "1.IH") simp
    also have "\<dots> = scan_string b i" using True by (subst (2) scan_string.simps) simp
    finally show ?thesis .
  next
    case False
    then show ?thesis by (subst scan_string.simps) auto
  qed
qed

lemma scan_number_ge: "i \<le> fst (scan_number b i tk)"
proof (induction b i tk rule: scan_number.induct)
  case (1 b i tk)
  show ?case
  proof (cases "i < length b")
    case False
    then show ?thesis by (subst scan_number.simps) simp
  next
    case True
    show ?thesis
    proof (cases "b ! i = CHR ''.''")
      case dot: True
      show ?thesis
      proof (cases "tk = TOK_FLOAT")
        case True
        with \<open>i < length b\<close> dot show ?thesis by (subst scan_number.simps) simp
      next
        case False
        have "Suc i \<le> fst (scan_number b (Suc i) TOK_FLOAT)"
          using \<open>i < length b\<close> dot False by (intro "1.IH"(1))
        with \<open>i < length b\<close> dot False show ?thesis by (subst scan_number.simps) simp
      qed
    next
      case nodot: False
      show ?thesis
      proof (cases "isdigit (b ! i)")
        case False
        with True nodot show ?thesis by (subst scan_number.simps) simp
      next
        case dig: True
        have "Suc i \<le> fst (scan_number b (Suc i) tk)"
          using True nodot dig by (intro "1.IH"(2)) simp_all
        with True nodot dig show ?thesis by (subst scan_number.simps) simp
      qed
    qed
  qed
qed

lemma scan_ident_ge: "i \<le> scan_ident b i"
proof (induction b i rule: scan_ident.induct)
  case (1 b i)
  show ?case
  proof (cases "i < length b \<and> \<not> isspace (b ! i) \<and> b ! i \<noteq> CHR ''#'' \<and> b ! i \<noteq> CHR ''=''")
    case True
    then have "Suc i \<le> scan_ident b (Suc i)" by (intro "1.IH")
    with True show ?thesis by (subst scan_ident.simps) simp
  next
    case False
    then show ?thesis by (subst scan_ident.simps) auto
  qed
qed

lemma scan_ident_gt:
  "i < length b \<Longrightarrow> \<not> isspace (b ! i) \<Longrightarrow> b ! i \<noteq> CHR ''#'' \<Longrightarrow> b ! i \<noteq> CHR ''='' \<Longrightarrow>
   i < scan_ident b i"
  using scan_ident_ge [of "Suc i" b] by (subst scan_ident.simps) simp

lemma tok_end:
  assumes "\<not> fst (eat_space b j 0) < length b"
  shows "tok b j = (TOK_EOF, fst (eat_space b j 0), fst (eat_space b j 0))"
  using assms by (simp add: tok_def get_token_def Let_def)

lemma tok_progress:
  assumes "fst (eat_space b j 0) < length b"
  shows "Suc (fst (eat_space b j 0)) \<le> snd (snd (tok b j))"
proof -
  define i where "i = fst (eat_space b j 0)"
  from eat_space_fixed [OF assms] have st: "b ! i \<noteq> CHR ''#''" "\<not> isspace (b ! i)"
    by (simp_all add: i_def)
  from assms have i: "i < length b" by (simp add: i_def)
  have "eat_space b i 0 = (i, 0)" using i st by (rule eat_space_stop)
  then have "tok b j = tok b i" by (intro tok_eat) (simp add: i_def)
  moreover have "Suc i \<le> snd (snd (tok b i))"
    using scan_string_ge [of "Suc i" b] scan_number_ge [of "Suc i" b TOK_FLOAT]
      scan_number_ge [of "Suc i" b TOK_INT] scan_ident_gt [OF i st(2) st(1)]
    by (subst tok_at [OF i st]) auto
  ultimately show ?thesis by (simp add: i_def)
qed

lemma left_get_token: "left (get_token q) \<le> length (fb q) - te q"
proof -
  let ?b = "fb q" and ?i = "fst (eat_space (fb q) (te q) 0)"
  have ge: "te q \<le> ?i" by (rule eat_space_ge)
  have tk: "(t (get_token q), tb (get_token q), te (get_token q)) = tok ?b (te q)"
    and fb: "fb (get_token q) = ?b"
    by (rule get_token_tok)+
  show ?thesis
  proof (cases "?i < length ?b")
    case False
    from tok_end [OF False] tk have "t (get_token q) = TOK_EOF" "te (get_token q) = ?i"
      by simp_all
    with ge fb show ?thesis by (simp add: left_def)
  next
    case True
    from tok_progress [OF True] tk have "Suc ?i \<le> te (get_token q)"
      by (metis snd_conv)
    with ge True fb show ?thesis unfolding left_def by (simp split: if_splits) arith
  qed
qed

lemma left_match:
  assumes "t p \<noteq> TOK_EOF"
  shows "left (get_token p) < left p"
proof -
  have "left (get_token p) \<le> length (fb p) - te p" by (rule left_get_token)
  also have "\<dots> < left p" using assms by (simp add: left_def)
  finally show ?thesis .
qed

lemma type'_fuel: "type' sd p \<noteq> Inl Out_of_fuel"
  by (cases "t p")
     (auto simp: type'_def match_def dup_tok_def Let_def split: sum.splits option.splits)

lemma type'_left:
  assumes "type' sd p = Inr (x, p1)"
  shows "left p1 < left p"
proof -
  from type'_Inr [OF assms] have "is_type (t p)" and "p1 = get_token p" by simp_all
  then show ?thesis by (auto intro: left_match simp: is_type_def)
qed

lemma array_elems_fuel:
  "left p < f \<Longrightarrow>
   array_elems sd f p \<noteq> Inl Out_of_fuel
   \<and> (\<forall>h p1. array_elems sd f p = Inr (h, p1) \<longrightarrow> left p1 \<le> left p)"
proof (induction f arbitrary: p)
  case 0
  then show ?case by simp
next
  case (Suc f)
  show ?case
  proof (cases "t p = TOK_ARRAY_E")
    case True
    then show ?thesis by simp
  next
    case False
    show ?thesis
    proof (cases "type' sd p")
      case (Inl e)
      with False type'_fuel [of sd p] show ?thesis by simp
    next
      case (Inr r)
      obtain x p1 where r: "r = (x, p1)" by (cases r)
      with Inr have ty: "type' sd p = Inr (x, p1)" by simp
      define p2 where "p2 = (if t p1 = TOK_COMMA then get_token p1 else p1)"
      have c: "(if t p1 = TOK_COMMA then match p1 TOK_COMMA else Inr p1) = Inr p2"
        by (simp add: p2_def match_def)
      have "left p2 \<le> left p1"
      proof (cases "t p1 = TOK_COMMA")
        case True
        then have "left (get_token p1) < left p1" by (intro left_match) simp
        with True show ?thesis by (simp add: p2_def)
      next
        case False
        then show ?thesis by (simp add: p2_def)
      qed
      with type'_left [OF ty] have l2: "left p2 < left p" by simp
      with Suc.prems have "left p2 < f" by simp
      from Suc.IH [OF this] have
        ih: "array_elems sd f p2 \<noteq> Inl Out_of_fuel"
            "\<And>h p3. array_elems sd f p2 = Inr (h, p3) \<Longrightarrow> left p3 \<le> left p2"
        by blast+
      have eq: "array_elems sd (Suc f) p =
          (case array_elems sd f p2 of Inl e \<Rightarrow> Inl e | Inr (h, p3) \<Rightarrow> Inr (x # h, p3))"
        using False ty c by simp
      show ?thesis
      proof (cases "array_elems sd f p2")
        case (Inl e)
        with ih(1) eq show ?thesis by simp
      next
        case (Inr r2)
        obtain h p3 where "r2 = (h, p3)" by (cases r2)
        with Inr eq ih(2) [of h p3] l2 show ?thesis by simp
      qed
    qed
  qed
qed

lemma value'_fuel:
  assumes "left p < f"
  shows "value' sd f p \<noteq> Inl Out_of_fuel"
    and "value' sd f p = Inr (h, p1) \<Longrightarrow> left p1 < left p"
proof -
  have "value' sd f p \<noteq> Inl Out_of_fuel
        \<and> (value' sd f p = Inr (h, p1) \<longrightarrow> left p1 < left p)"
  proof (cases "t p = TOK_ARRAY_B")
    case True
    then have l: "left (get_token p) < left p" by (intro left_match) simp
    with assms have "left (get_token p) < f" by simp
    from array_elems_fuel [OF this, of sd] have
      ih: "array_elems sd f (get_token p) \<noteq> Inl Out_of_fuel"
          "\<And>h p3. array_elems sd f (get_token p) = Inr (h, p3) \<Longrightarrow> left p3 \<le> left (get_token p)"
      by blast+
    show ?thesis
    proof (cases "array_elems sd f (get_token p)")
      case (Inl e)
      with ih(1) True show ?thesis by (simp add: value'_def match_def)
    next
      case (Inr r2)
      obtain h2 p3 where r2: "r2 = (h2, p3)" by (cases r2)
      show ?thesis
      proof (cases "t p3 = TOK_ARRAY_E")
        case False
        with Inr r2 True show ?thesis by (simp add: value'_def match_def)
      next
        case e: True
        then have "left (get_token p3) < left p3" by (intro left_match) simp
        with ih(2) [of h2 p3] Inr r2 l have "left (get_token p3) < left p" by simp
        with Inr r2 True e show ?thesis by (auto simp: value'_def match_def)
      qed
    qed
  next
    case False
    show ?thesis
    proof (cases "type' sd p")
      case (Inl e)
      with False type'_fuel [of sd p] show ?thesis by (simp add: value'_def)
    next
      case (Inr r)
      obtain x q where "r = (x, q)" by (cases r)
      with Inr False type'_left [of sd p x q] show ?thesis by (auto simp: value'_def)
    qed
  qed
  then show "value' sd f p \<noteq> Inl Out_of_fuel"
    and "value' sd f p = Inr (h, p1) \<Longrightarrow> left p1 < left p" by simp_all
qed

lemma section_fuel:
  "(2 * left p \<le> f + 1 \<and> 1 \<le> f \<longrightarrow>
      section' sd f p \<noteq> Inl Out_of_fuel
      \<and> (\<forall>n p1. section' sd f p = Inr (n, p1) \<longrightarrow> left p1 < left p))
   \<and> (2 * left p + 2 \<le> f \<longrightarrow>
      section_children sd f p \<noteq> Inl Out_of_fuel
      \<and> (\<forall>c p1. section_children sd f p = Inr (c, p1) \<longrightarrow> left p1 \<le> left p))"
proof (induction f arbitrary: p)
  case 0
  show ?case by simp
next
  case (Suc g)
  note ih_s = Suc [THEN conjunct1, rule_format]
  note ih_c = Suc [THEN conjunct2, rule_format]
  have sec: "section' sd (Suc g) p \<noteq> Inl Out_of_fuel
      \<and> (\<forall>n p1. section' sd (Suc g) p = Inr (n, p1) \<longrightarrow> left p1 < left p)"
    if b: "2 * left p \<le> Suc g + 1"
  proof (cases "dup_tok p")
    case (Inl e)
    then have "e = Negative_length" by (auto simp: dup_tok_def split: if_splits)
    with Inl show ?thesis by simp
  next
    case (Inr k)
    show ?thesis
    proof (cases "t p = TOK_IDENTIFIER")
      case False
      with Inr show ?thesis by (simp add: match_def)
    next
      case True
      define p1 where "p1 = get_token p"
      have l1: "left p1 < left p" unfolding p1_def using True by (intro left_match) simp
      show ?thesis
      proof (cases "t p1 = TOK_SECTION_B")
        case sb: True
        define p2 where "p2 = get_token p1"
        have l2: "left p2 < left p1" unfolding p2_def using sb by (intro left_match) simp
        with l1 b have "2 * left p2 + 2 \<le> g" by simp
        from ih_c [OF this] have
          c: "section_children sd g p2 \<noteq> Inl Out_of_fuel"
             "\<And>c p3. section_children sd g p2 = Inr (c, p3) \<Longrightarrow> left p3 \<le> left p2"
          by blast+
        have eq: "section' sd (Suc g) p =
            (case section_children sd g p2 of
               Inl e \<Rightarrow> Inl e
             | Inr (c, p3) \<Rightarrow>
                 (case match p3 TOK_SECTION_E of
                    Inl e \<Rightarrow> Inl e
                  | Inr p4 \<Rightarrow> Inr (Node k c [], p4)))"
          using Inr True sb by (simp add: match_def p1_def p2_def)
        show ?thesis
        proof (cases "section_children sd g p2")
          case (Inl e)
          with c(1) eq show ?thesis by simp
        next
          case r: (Inr r)
          obtain c3 p3 where r3: "r = (c3, p3)" by (cases r)
          show ?thesis
          proof (cases "t p3 = TOK_SECTION_E")
            case False
            with r r3 eq show ?thesis by (simp add: match_def)
          next
            case e: True
            then have "left (get_token p3) < left p3" by (intro left_match) simp
            with c(2) [of c3 p3] r r3 l1 l2 have "left (get_token p3) < left p" by simp
            with r r3 eq e show ?thesis by (simp add: match_def)
          qed
        qed
      next
        case nsb: False
        show ?thesis
        proof (cases "t p1 = TOK_EQ")
          case False
          with Inr True nsb show ?thesis by (simp add: match_def p1_def)
        next
          case eqt: True
          define p2 where "p2 = get_token p1"
          have l2: "left p2 < left p1" unfolding p2_def using eqt by (intro left_match) simp
          with l1 b have lg: "left p2 < g" by simp
          have eq: "section' sd (Suc g) p =
              (case value' sd g p2 of
                 Inl e \<Rightarrow> Inl e
               | Inr (h, p3) \<Rightarrow> if h = [] then Inl Null_result else Inr (Node k [] h, p3))"
            using Inr True nsb eqt by (simp add: match_def p1_def p2_def)
          show ?thesis
          proof (cases "value' sd g p2")
            case (Inl e)
            with value'_fuel(1) [OF lg, of sd] eq show ?thesis by simp
          next
            case r: (Inr r)
            obtain h p3 where r3: "r = (h, p3)" by (cases r)
            from value'_fuel(2) [OF lg, of sd h p3] r r3 l1 l2 have "left p3 < left p" by simp
            with r r3 eq show ?thesis by simp
          qed
        qed
      qed
    qed
  qed
  have chi: "section_children sd (Suc g) p \<noteq> Inl Out_of_fuel
      \<and> (\<forall>c p1. section_children sd (Suc g) p = Inr (c, p1) \<longrightarrow> left p1 \<le> left p)"
    if b: "2 * left p + 2 \<le> Suc g"
  proof (cases "t p = TOK_SECTION_E")
    case True
    then show ?thesis by simp
  next
    case False
    from b have "2 * left p \<le> g + 1 \<and> 1 \<le> g" by simp
    from ih_s [OF this] have
      s: "section' sd g p \<noteq> Inl Out_of_fuel"
         "\<And>n p1. section' sd g p = Inr (n, p1) \<Longrightarrow> left p1 < left p"
      by blast+
    show ?thesis
    proof (cases "section' sd g p")
      case (Inl e)
      with s(1) False show ?thesis by simp
    next
      case r: (Inr r)
      obtain n p1 where r1: "r = (n, p1)" by (cases r)
      from s(2) [of n p1] r r1 have l1: "left p1 < left p" by simp
      with b have "2 * left p1 + 2 \<le> g" by simp
      from ih_c [OF this] have
        c: "section_children sd g p1 \<noteq> Inl Out_of_fuel"
           "\<And>c p2. section_children sd g p1 = Inr (c, p2) \<Longrightarrow> left p2 \<le> left p1"
        by blast+
      show ?thesis
      proof (cases "section_children sd g p1")
        case (Inl e)
        with c(1) r r1 False show ?thesis by simp
      next
        case r': (Inr r2)
        obtain c2 p2 where r2: "r2 = (c2, p2)" by (cases r2)
        from c(2) [of c2 p2] r' r2 l1 have "left p2 \<le> left p" by simp
        with r r1 r' r2 False show ?thesis by simp
      qed
    qed
  qed
  from sec chi show ?case by simp
qed

lemma file'_fuel: "2 * left p + 1 \<le> f \<Longrightarrow> file' sd f p \<noteq> Inl Out_of_fuel"
proof (induction f arbitrary: p)
  case 0
  then show ?case by simp
next
  case (Suc g)
  show ?case
  proof (cases "t p = TOK_EOF")
    case True
    then show ?thesis by simp
  next
    case False
    then have "1 \<le> left p" by (simp add: left_def)
    with Suc.prems have "2 * left p \<le> g + 1 \<and> 1 \<le> g" by simp
    from section_fuel [THEN conjunct1, rule_format, OF this, of sd] have
      s: "section' sd g p \<noteq> Inl Out_of_fuel"
         "\<And>n p1. section' sd g p = Inr (n, p1) \<Longrightarrow> left p1 < left p"
      by blast+
    show ?thesis
    proof (cases "section' sd g p")
      case (Inl e)
      with s(1) False show ?thesis by simp
    next
      case r: (Inr r)
      obtain n p1 where r1: "r = (n, p1)" by (cases r)
      from s(2) [of n p1] r r1 have "left p1 < left p" by simp
      with Suc.prems have "2 * left p1 + 1 \<le> g" by simp
      from Suc.IH [OF this] r r1 False show ?thesis
        by (auto split: sum.splits prod.splits)
    qed
  qed
qed

theorem read_config_fuel: "read_config sd file \<noteq> Inl Out_of_fuel"
proof -
  let ?p = "get_token \<lparr>fb = file, t = TOK_EOF, tb = 0, te = 0, line = 1\<rparr>"
  have "left ?p \<le> length file"
    using left_get_token [of "\<lparr>fb = file, t = TOK_EOF, tb = 0, te = 0, line = 1\<rparr>"] by simp
  then have "2 * left ?p + 1 \<le> 2 * length file + 1" by simp
  from file'_fuel [OF this, of sd] show ?thesis
    by (auto simp add: read_config_def Let_def simp del: file'.simps
        split: sum.splits prod.splits)
qed

subsection \<open>What a successful read produces\<close>

text \<open>
  A key is the text of an identifier token: a run of identifier characters, none of
  them the terminator, that does not begin with a digit or a dot unless it is empty
  (the key of a section is copied before the token is matched, so a key may come from
  any token; an accepted one comes from an identifier).
\<close>

lemma scan_ident_chars: "list_all ident_char (take (scan_ident b i - i) (drop i b))"
proof (induction b i rule: scan_ident.induct)
  case (1 b i)
  show ?case
  proof (cases "i < length b \<and> \<not> isspace (b ! i) \<and> b ! i \<noteq> CHR ''#'' \<and> b ! i \<noteq> CHR ''=''")
    case True
    then have s: "scan_ident b i = scan_ident b (Suc i)"
      by (subst scan_ident.simps) simp
    have ge: "Suc i \<le> scan_ident b (Suc i)" by (rule scan_ident_ge)
    then obtain m where m: "scan_ident b (Suc i) - i = Suc m" "scan_ident b (Suc i) - Suc i = m"
      by (cases "scan_ident b (Suc i) - i") auto
    from True have d: "drop i b = b ! i # drop (Suc i) b" by (simp add: Cons_nth_drop_Suc)
    from "1.IH" [OF True] True show ?thesis
      by (simp add: s m d ident_char_def)
  next
    case False
    then have "scan_ident b i = i" by (subst scan_ident.simps) auto
    then show ?thesis by simp
  qed
qed

lemma scan_number_kind:
  "tk = TOK_INT \<or> tk = TOK_FLOAT \<Longrightarrow>
   snd (scan_number b i tk) = TOK_INT \<or> snd (scan_number b i tk) = TOK_FLOAT"
proof (induction b i tk rule: scan_number.induct)
  case (1 b i tk)
  show ?case
  proof (cases "i < length b")
    case False
    with "1.prems" show ?thesis by (subst (1 2) scan_number.simps) simp
  next
    case True
    show ?thesis
    proof (cases "b ! i = CHR ''.''")
      case dot: True
      show ?thesis
      proof (cases "tk = TOK_FLOAT")
        case True
        with \<open>i < length b\<close> dot show ?thesis by (subst (1 2) scan_number.simps) simp
      next
        case False
        from "1.IH"(1) [OF True dot False] True dot False show ?thesis
          by (subst (1 2) scan_number.simps) simp
      qed
    next
      case nodot: False
      show ?thesis
      proof (cases "isdigit (b ! i)")
        case False
        with True nodot "1.prems" show ?thesis by (subst (1 2) scan_number.simps) simp
      next
        case dig: True
        from "1.IH"(2) [OF True nodot] dig "1.prems" True nodot show ?thesis
          by (subst (1 2) scan_number.simps) simp
      qed
    qed
  qed
qed

definition key_ok :: "string \<Rightarrow> bool" where
  "key_ok k = (list_all (\<lambda>c. ident_char c \<and> c \<noteq> NUL) k \<and> (k = [] \<or> ident_start (hd k)))"

lemma tok_identifier:
  assumes "tok b j = (TOK_IDENTIFIER, i, e)"
  shows "i < length b \<and> ident_start (b ! i) \<and> e = scan_ident b i"
proof (cases "fst (eat_space b j 0) < length b")
  case False
  from tok_end [OF False] assms show ?thesis by simp
next
  case True
  define i' where "i' = fst (eat_space b j 0)"
  from eat_space_fixed [OF True] have st: "b ! i' \<noteq> CHR ''#''" "\<not> isspace (b ! i')"
    by (simp_all add: i'_def)
  from True have i: "i' < length b" by (simp add: i'_def)
  have "eat_space b i' 0 = (i', 0)" using i st by (rule eat_space_stop)
  then have "tok b j = tok b i'" by (intro tok_eat) (simp add: i'_def)
  with assms have a: "tok b i' = (TOK_IDENTIFIER, i, e)" by simp
  have k: "snd (scan_number b (Suc i') TOK_FLOAT) \<noteq> TOK_IDENTIFIER"
    "snd (scan_number b (Suc i') TOK_INT) \<noteq> TOK_IDENTIFIER"
    using scan_number_kind [of TOK_FLOAT b "Suc i'"] scan_number_kind [of TOK_INT b "Suc i'"]
    by auto
  from a [unfolded tok_at [OF i st]] k have
    "i = i' \<and> e = scan_ident b i' \<and> b ! i' \<notin> set ''{}[],.'' \<and> b ! i' \<noteq> DQ
     \<and> \<not> isdigit (b ! i') \<and> b ! i' \<noteq> CHR ''=''"
    by (auto split: if_splits)
  with i st show ?thesis by (simp add: ident_start_def ident_char_def)
qed

text \<open>
  A parser state as \<^verbatim>\<open>get_token\<close> leaves it; a value whose string stops before the first
  terminator, as \<^verbatim>\<open>_dup_tok\<close> copies it; and a node as the parser builds it: a key as
  above, values or children but not both.
\<close>

definition lexed :: "parser \<Rightarrow> bool" where
  "lexed p = (\<exists>q. p = get_token q)"

fun str_ok :: "'r config_value \<Rightarrow> bool" where
  "str_ok (CFG_STRING s) = (NUL \<notin> set s)"
| "str_ok (CFG_INT i) = True"
| "str_ok (CFG_FLOAT r) = True"

fun parsed :: "'r config_node \<Rightarrow> bool" where
  "parsed (Node k c h) =
     (key_ok k \<and> (h = [] \<or> c = []) \<and> list_all str_ok h \<and> list_all parsed c)"

lemma takeWhile_NUL: "NUL \<notin> set (takeWhile (\<lambda>c. c \<noteq> NUL) s)"
  by (induction s) auto

lemma dup_tok_key:
  assumes "lexed p" and "t p = TOK_IDENTIFIER" and "dup_tok p = Inr k"
  shows "key_ok k"
proof -
  from assms(1) obtain q where p: "p = get_token q" by (auto simp: lexed_def)
  let ?b = "fb p"
  from get_token_tok [of q] p assms(2) have "tok ?b (te q) = (TOK_IDENTIFIER, tb p, te p)"
    by simp
  from tok_identifier [OF this] have i: "tb p < length ?b" and st: "ident_start (?b ! tb p)"
    and e: "te p = scan_ident ?b (tb p)" by simp_all
  define s where "s = take (te p - tb p) (drop (tb p) ?b)"
  have all: "list_all ident_char s" unfolding s_def e by (rule scan_ident_chars)
  from assms(3) have k: "k = takeWhile (\<lambda>c. c \<noteq> NUL) s"
    by (auto simp: dup_tok_def s_def split: if_splits)
  have "set k \<subseteq> set s" unfolding k by (auto dest: set_takeWhileD)
  with all have a: "list_all (\<lambda>c. ident_char c \<and> c \<noteq> NUL) k"
    using takeWhile_NUL [of s] by (auto simp: list_all_iff k)
  have "ident_start (hd k)" if "k \<noteq> []"
  proof -
    from that k obtain c s' where s: "s = c # s'" and "hd k = c"
      by (cases s) (auto split: if_splits)
    moreover from s i have "c = ?b ! tb p"
      unfolding s_def by (cases "te p - tb p") (auto simp: Cons_nth_drop_Suc [symmetric])
    ultimately show ?thesis using st by simp
  qed
  with a show ?thesis by (auto simp: key_ok_def)
qed

lemma type'_parsed:
  assumes "type' sd p = Inr (x, p1)"
  shows "str_ok x" and "lexed p1"
proof -
  from type'_Inr [OF assms] show "lexed p1" by (auto simp: lexed_def)
  from assms show "str_ok x"
    by (cases "t p")
       (auto simp: type'_def dup_tok_def match_def Let_def takeWhile_NUL
          split: if_splits option.splits)
qed

lemma array_elems_parsed:
  "array_elems sd f p = Inr (h, p1) \<Longrightarrow> lexed p \<Longrightarrow> list_all str_ok h \<and> lexed p1"
proof (induction f arbitrary: p h p1)
  case 0
  then show ?case by simp
next
  case (Suc f)
  show ?case
  proof (cases "t p = TOK_ARRAY_E")
    case True
    with Suc.prems show ?thesis by simp
  next
    case False
    with Suc.prems(1) obtain x q1 q2 hs where
      x: "type' sd p = Inr (x, q1)"
      and q2: "(if t q1 = TOK_COMMA then match q1 TOK_COMMA else Inr q1) = Inr q2"
      and r: "array_elems sd f q2 = Inr (hs, p1)" and h: "h = x # hs"
      by (auto split: sum.splits prod.splits)
    from type'_parsed [OF x] have sx: "str_ok x" and l1: "lexed q1" by simp_all
    from q2 l1 have "lexed q2" by (auto simp: match_def lexed_def split: if_splits)
    from Suc.IH [OF r this] sx h show ?thesis by simp
  qed
qed

lemma value'_parsed:
  assumes "value' sd f p = Inr (h, p1)" and "lexed p"
  shows "list_all str_ok h \<and> lexed p1"
proof (cases "t p = TOK_ARRAY_B")
  case True
  with assms(1) obtain q where
    a: "array_elems sd f (get_token p) = Inr (h, q)" and p1: "p1 = get_token q"
    by (auto simp: value'_def match_def split: sum.splits prod.splits if_splits)
  have "lexed (get_token p)" by (auto simp: lexed_def)
  from array_elems_parsed [OF a this] p1 show ?thesis by (auto simp: lexed_def)
next
  case False
  with assms(1) obtain x where x: "type' sd p = Inr (x, p1)" and h: "h = [x]"
    by (auto simp: value'_def split: sum.splits prod.splits)
  from type'_parsed [OF x] h show ?thesis by simp
qed

lemma section_parsed:
  "(section' sd f p = Inr (n, p1) \<longrightarrow> lexed p \<longrightarrow> parsed n \<and> lexed p1)
   \<and> (section_children sd f p = Inr (c, p2) \<longrightarrow> lexed p \<longrightarrow> list_all parsed c \<and> lexed p2)"
proof (induction f arbitrary: p n p1 c p2)
  case 0
  show ?case by simp
next
  case (Suc g)
  note ih_s = Suc [THEN conjunct1, rule_format]
  note ih_c = Suc [THEN conjunct2, rule_format]
  have sec: "parsed n \<and> lexed p1" if s: "section' sd (Suc g) p = Inr (n, p1)" and lx: "lexed p"
  proof -
    from s obtain k where dk: "dup_tok p = Inr k" and tp: "t p = TOK_IDENTIFIER"
      by (auto simp: match_def split: sum.splits if_splits)
    from dup_tok_key [OF lx tp dk] have ko: "key_ok k" .
    define q1 where "q1 = get_token p"
    show ?thesis
    proof (cases "t q1 = TOK_SECTION_B")
      case True
      with s dk tp obtain cs q3 where
        sc: "section_children sd g (get_token q1) = Inr (cs, q3)"
        and n: "n = Node k cs []" and p1: "p1 = get_token q3"
        by (auto simp: match_def q1_def split: sum.splits prod.splits if_splits)
      have "lexed (get_token q1)" by (auto simp: lexed_def)
      from ih_c [OF sc this] ko n p1 show ?thesis by (auto simp: lexed_def)
    next
      case False
      with s dk tp obtain h where
        v: "value' sd g (get_token q1) = Inr (h, p1)" and n: "n = Node k [] h"
        by (auto simp: match_def q1_def split: sum.splits prod.splits if_splits)
      have "lexed (get_token q1)" by (auto simp: lexed_def)
      from value'_parsed [OF v this] ko n show ?thesis by simp
    qed
  qed
  have chi: "list_all parsed c \<and> lexed p2"
    if s: "section_children sd (Suc g) p = Inr (c, p2)" and lx: "lexed p"
  proof (cases "t p = TOK_SECTION_E")
    case True
    with s lx show ?thesis by simp
  next
    case False
    with s obtain m q1 cs where
      a: "section' sd g p = Inr (m, q1)" and b: "section_children sd g q1 = Inr (cs, p2)"
      and c: "c = m # cs"
      by (auto split: sum.splits prod.splits)
    from ih_s [OF a lx] have "parsed m" "lexed q1" by simp_all
    with ih_c [OF b] c show ?thesis by simp
  qed
  from sec chi show ?case by blast
qed

lemma file'_parsed:
  "file' sd f p = Inr (root, p1) \<Longrightarrow> lexed p \<Longrightarrow> list_all parsed root"
proof (induction f arbitrary: p root p1)
  case 0
  then show ?case by simp
next
  case (Suc f)
  show ?case
  proof (cases "t p = TOK_EOF")
    case True
    with Suc.prems show ?thesis by simp
  next
    case False
    with Suc.prems(1) obtain n q ns where
      s: "section' sd f p = Inr (n, q)" and r: "file' sd f q = Inr (ns, p1)"
      and root: "root = n # ns"
      by (auto split: sum.splits prod.splits)
    from section_parsed [THEN conjunct1, rule_format, OF s Suc.prems(2)]
    have "parsed n" "lexed q" by simp_all
    with Suc.IH [OF r] root show ?thesis by simp
  qed
qed

lemma read_config_parsed:
  assumes "read_config sd file = Inr root"
  shows "list_all parsed root" and "root \<noteq> []"
proof -
  let ?p = "get_token \<lparr>fb = file, t = TOK_EOF, tb = 0, te = 0, line = 1\<rparr>"
  from assms obtain p1 where f: "file' sd (2 * length file + 1) ?p = Inr (root, p1)"
    and ne: "root \<noteq> []"
    by (auto simp add: read_config_def Let_def simp del: file'.simps
        split: sum.splits prod.splits if_splits)
  have "lexed ?p" by (auto simp: lexed_def)
  from file'_parsed [OF f this] show "list_all parsed root" .
  from ne show "root \<noteq> []" .
qed

subsection \<open>Reading, writing and reading again\<close>

text \<open>
  The values the text format can give back: an integer that is not negative (the
  language has no sign), a float that \<^verbatim>\<open>%f\<close> and \<^verbatim>\<open>strtod\<close> take there and back, a string
  that is the body of a terminated literal. A node is expressible when its key is not
  empty and its values and children are.
\<close>

fun value_expressible :: "(string \<Rightarrow> 'r option) \<Rightarrow> ('r \<Rightarrow> string) \<Rightarrow> 'r config_value \<Rightarrow> bool" where
  "value_expressible sd pf (CFG_INT i) = (0 \<le> sint i)"
| "value_expressible sd pf (CFG_FLOAT r) = float_ok sd pf r"
| "value_expressible sd pf (CFG_STRING s) = closed_body s"

fun expressible :: "(string \<Rightarrow> 'r option) \<Rightarrow> ('r \<Rightarrow> string) \<Rightarrow> 'r config_node \<Rightarrow> bool" where
  "expressible sd pf (Node k c h) =
     (k \<noteq> [] \<and> list_all (value_expressible sd pf) h \<and> list_all (expressible sd pf) c)"

lemma wf_value_parsed: "str_ok x \<Longrightarrow> value_expressible sd pf x \<Longrightarrow> wf_value sd pf x"
  by (cases x) simp_all

lemma writable_parsed: "parsed n \<Longrightarrow> expressible sd pf n \<Longrightarrow> writable sd pf n"
proof (induction n)
  case (Node k c h)
  from Node.prems have "ident_key k" by (auto simp: key_ok_def ident_key_def)
  moreover have "list_all (writable sd pf) c"
    using Node by (auto simp: list_all_iff)
  moreover have "list_all (wf_value sd pf) h"
    using Node.prems by (auto simp: list_all_iff intro: wf_value_parsed)
  moreover from Node.prems have "h = [] \<or> c = []" by simp
  ultimately show ?case by auto
qed

text \<open>
  Where the round trip holds. For every Document produced by a successful
  \<^verbatim>\<open>read_config\<close> whose keys are not empty, whose integers are not negative, whose
  strings are bodies of terminated literals and whose floats \<^verbatim>\<open>%f\<close> and \<^verbatim>\<open>strtod\<close> take
  there and back, reading what \<^verbatim>\<open>write_config\<close> wrote succeeds and gives the same
  Document.
\<close>

theorem read_write_read_config:
  assumes "read_config sd file = Inr root" and "list_all (expressible sd pf) root"
  shows "read_config sd (write_config pf root) = Inr root"
proof -
  from read_config_parsed [OF assms(1)] have p: "list_all parsed root" and ne: "root \<noteq> []" .
  from p assms(2) have "list_all (writable sd pf) root"
    by (auto simp: list_all_iff intro: writable_parsed)
  then show ?thesis using ne by (rule write_read_config)
qed

lemma float_ok0: "float_ok strtod0 printf0 500000"
proof -
  have p: "printf0 500000 = ''0.500000''" by code_simp
  show ?thesis
    unfolding float_ok_def p
  proof (intro conjI allI)
    show "\<exists>ds es. ''0.500000'' = ds @ CHR ''.'' # es \<and> ds \<noteq> [] \<and> list_all isdigit ds
            \<and> list_all isdigit es"
      by (rule exI [of _ "''0''"], rule exI [of _ "''500000''"]) (simp add: isdigit_def)
  qed (simp_all add: strtod0_def decimal_def digit_val_def isdigit_def NL_def)
qed

theorem read_write_read_config_witness:
  "read_config strtod0
     (''a { b = [12, '' @ [DQ] @ ''x'' @ [BS, DQ] @ ''y'' @ [DQ] @ '', 0.5] e { } } k = 7'')
     = Inr [Node ''a'' [Node ''b'' [] [CFG_INT 12, CFG_STRING (''x'' @ [BS, DQ] @ ''y''), CFG_FLOAT 500000],
                        Node ''e'' [] []] [],
            Node ''k'' [] [CFG_INT 7]]
   \<and> list_all (expressible strtod0 printf0)
       [Node ''a'' [Node ''b'' [] [CFG_INT 12, CFG_STRING (''x'' @ [BS, DQ] @ ''y''), CFG_FLOAT 500000],
                    Node ''e'' [] []] [],
        Node ''k'' [] [CFG_INT 7]]
   \<and> read_config strtod0
       (write_config printf0
          [Node ''a'' [Node ''b'' [] [CFG_INT 12, CFG_STRING (''x'' @ [BS, DQ] @ ''y''), CFG_FLOAT 500000],
                       Node ''e'' [] []] [],
           Node ''k'' [] [CFG_INT 7]])
     = Inr [Node ''a'' [Node ''b'' [] [CFG_INT 12, CFG_STRING (''x'' @ [BS, DQ] @ ''y''), CFG_FLOAT 500000],
                        Node ''e'' [] []] [],
            Node ''k'' [] [CFG_INT 7]]"
proof -
  let ?root = "[Node ''a'' [Node ''b'' [] [CFG_INT 12, CFG_STRING (''x'' @ [BS, DQ] @ ''y''), CFG_FLOAT 500000],
                        Node ''e'' [] []] [],
            Node ''k'' [] [CFG_INT 7]]"
  have r: "read_config strtod0
     (''a { b = [12, '' @ [DQ] @ ''x'' @ [BS, DQ] @ ''y'' @ [DQ] @ '', 0.5] e { } } k = 7'')
     = Inr ?root"
    by code_simp
  have e: "list_all (expressible strtod0 printf0) ?root"
    by (simp add: float_ok0 DQ_def BS_def)
  from read_write_read_config [OF r e] r e show ?thesis by (intro conjI)
qed

text \<open>
  C1. Three Documents that a successful \<^verbatim>\<open>read_config\<close> produces do not come back from
  \<^verbatim>\<open>write_config\<close> and \<^verbatim>\<open>read_config\<close>. From an unterminated string literal \<^verbatim>\<open>_type\<close>
  strips the last character though it is no quote; the stored text ends in a
  backslash, and the text written for it reads back as another string. From the
  literal 2147483648 the result of \<^verbatim>\<open>strtol\<close> is cut to the \<^verbatim>\<open>int\<close> field, which then holds
  a negative number; it is written with a sign, and the text is refused. From an
  identifier that begins with a zero byte \<^verbatim>\<open>_dup_tok\<close> copies the empty key; the text
  written for it begins with the equals sign and is refused.
\<close>

theorem parsed_not_written_back:
  "read_config strtod0 (''a = '' @ [DQ] @ ''a'' @ [BS, DQ])
     = Inr [Node ''a'' [] [CFG_STRING (''a'' @ [BS])]]
   \<and> read_config strtod0 (write_config printf0 [Node ''a'' [] [CFG_STRING (''a'' @ [BS])]])
     = Inr [Node ''a'' [] [CFG_STRING (''a'' @ [BS, DQ])]]
   \<and> read_config strtod0 ''a = 2147483648'' = Inr [Node ''a'' [] [CFG_INT 2147483648]]
   \<and> read_config strtod0 (write_config printf0 [Node ''a'' [] [CFG_INT 2147483648]])
     = Inl (Expected_value 1)
   \<and> read_config strtod0 ([NUL] @ '' = 1'') = Inr [Node [] [] [CFG_INT 1]]
   \<and> read_config strtod0 (write_config printf0 [Node [] [] [CFG_INT 1]])
     = Inl (Unexpected_token 1)"
proof (intro conjI)
  show "read_config strtod0 (''a = '' @ [DQ] @ ''a'' @ [BS, DQ])
     = Inr [Node ''a'' [] [CFG_STRING (''a'' @ [BS])]]"
    by code_simp
  show "read_config strtod0 (write_config printf0 [Node ''a'' [] [CFG_STRING (''a'' @ [BS])]])
     = Inr [Node ''a'' [] [CFG_STRING (''a'' @ [BS, DQ])]]"
    by code_simp
  show "read_config strtod0 ''a = 2147483648'' = Inr [Node ''a'' [] [CFG_INT 2147483648]]"
    by code_simp
  show "read_config strtod0 (write_config printf0 [Node ''a'' [] [CFG_INT 2147483648]])
     = Inl (Expected_value 1)"
    by code_simp
  show "read_config strtod0 ([NUL] @ '' = 1'') = Inr [Node [] [] [CFG_INT 1]]"
    by code_simp
  show "read_config strtod0 (write_config printf0 [Node [] [] [CFG_INT 1]])
     = Inl (Unexpected_token 1)"
    by code_simp
qed

section \<open>Properties of the md probe\<close>

text \<open>
  The four candidate offsets in the order the source reads them: the 0.90 superblock
  at the tail of the device, then the version 1 superblocks of minor versions 0, 1, 2;
  and the outcome of reading them in turn up to the first that holds the magic.
\<close>

definition md_offsets :: "nat \<Rightarrow> 64 word \<Rightarrow> 64 word list" where
  "md_offsets shift sz =
     [push_bit shift ((sz AND NOT 127) - 128),
      push_bit shift ((sz - 16) AND NOT 7),
      0,
      push_bit shift 8]"

definition md_probe ::
  "(64 word \<Rightarrow> bool) \<Rightarrow> bool \<Rightarrow> 64 word list \<Rightarrow> int \<times> 64 word option \<times> dev_call list" where
  "md_probe has want_sb offs =
     (case dropWhile (\<lambda>off. \<not> has off) offs of
        [] \<Rightarrow> (0, None, [Dev_get_size, Dev_open] @ map Dev_read offs @ [Dev_close])
      | off # _ \<Rightarrow>
          (1, if want_sb then Some off else None,
           [Dev_get_size, Dev_open] @ map Dev_read (takeWhile (\<lambda>off. \<not> has off) offs)
             @ [Dev_read off, Dev_close]))"

lemma v1_loop_2:
  assumes "v1_sb_offset sh sz 2 = Some c"
  shows "v1_loop xl sh dev sz (Suc (Suc 0)) =
     (if dev_has_md_magic xl dev c then (Some c, [Dev_read c]) else (None, [Dev_read c]))"
  using assms by (subst v1_loop.simps) (simp add: numeral_2_eq_2)

lemma v1_loop_1:
  assumes "v1_sb_offset sh sz 1 = Some b" and "v1_sb_offset sh sz 2 = Some c"
  shows "v1_loop xl sh dev sz (Suc 0) =
     (if dev_has_md_magic xl dev b then (Some b, [Dev_read b])
      else if dev_has_md_magic xl dev c then (Some c, [Dev_read b, Dev_read c])
      else (None, [Dev_read b, Dev_read c]))"
  using assms(1) by (subst v1_loop.simps) (simp add: v1_loop_2 [OF assms(2)])

lemma v1_loop_0:
  assumes "v1_sb_offset sh sz 0 = Some a" and "v1_sb_offset sh sz 1 = Some b"
    and "v1_sb_offset sh sz 2 = Some c"
  shows "v1_loop xl sh dev sz 0 =
     (if dev_has_md_magic xl dev a then (Some a, [Dev_read a])
      else if dev_has_md_magic xl dev b then (Some b, [Dev_read a, Dev_read b])
      else if dev_has_md_magic xl dev c then (Some c, [Dev_read a, Dev_read b, Dev_read c])
      else (None, [Dev_read a, Dev_read b, Dev_read c]))"
  using assms(1) by (subst v1_loop.simps) (simp add: v1_loop_1 [OF assms(2) assms(3)])

lemma md_consts: "MD_RESERVED_SECTORS = 128"
  by (simp add: MD_RESERVED_SECTORS_def MD_RESERVED_BYTES_def)

text \<open>
  C9, as amended. When the size query fails the result is -1. A device of fewer than
  256 sectors is answered 0 without being opened or read. When the open fails the
  result is -1. Otherwise the device is opened, the four offsets are read in turn up to
  the first that holds the magic (as it stands, or as \<^verbatim>\<open>xlate32\<close> translates it), and the
  device is closed: the result is 1 with that offset, or 0 when none holds it.
\<close>

theorem dev_is_md_probe:
  "(get_size dev = None \<longrightarrow> dev_is_md xl sh dev w = (- 1, None, [Dev_get_size]))
   \<and> (get_size dev = Some sz \<and> sz < 256 \<longrightarrow> dev_is_md xl sh dev w = (0, None, [Dev_get_size]))
   \<and> (get_size dev = Some sz \<and> \<not> sz < 256 \<and> \<not> opens dev \<longrightarrow>
        dev_is_md xl sh dev w = (- 1, None, [Dev_get_size, Dev_open]))
   \<and> (get_size dev = Some sz \<and> \<not> sz < 256 \<and> opens dev \<longrightarrow>
        dev_is_md xl sh dev w = md_probe (dev_has_md_magic xl dev) w (md_offsets sh sz))
   \<and> (dev_has_md_magic xl dev off \<longleftrightarrow>
        (\<exists>m. read32 dev off = Some m \<and> (m = xl MD_SB_MAGIC \<or> m = MD_SB_MAGIC)))"
proof (intro conjI impI)
  assume "get_size dev = None"
  then show "dev_is_md xl sh dev w = (- 1, None, [Dev_get_size])"
    by (simp add: dev_is_md_def)
next
  assume "get_size dev = Some sz \<and> sz < 256"
  then show "dev_is_md xl sh dev w = (0, None, [Dev_get_size])"
    by (simp add: dev_is_md_def md_consts)
next
  assume "get_size dev = Some sz \<and> \<not> sz < 256 \<and> \<not> opens dev"
  then show "dev_is_md xl sh dev w = (- 1, None, [Dev_get_size, Dev_open])"
    by (simp add: dev_is_md_def md_consts)
next
  assume a: "get_size dev = Some sz \<and> \<not> sz < 256 \<and> opens dev"
  define o0 where "o0 = push_bit sh ((sz AND NOT 127) - 128)"
  define o1 where "o1 = push_bit sh ((sz - 16) AND NOT 7)"
  define o3 where "o3 = (push_bit sh 8 :: 64 word)"
  have n: "push_bit sh (MD_NEW_SIZE_SECTORS sz) = o0"
    by (simp add: MD_NEW_SIZE_SECTORS_def md_consts o0_def)
  have v: "v1_sb_offset sh sz 0 = Some o1" "v1_sb_offset sh sz 1 = Some 0"
    "v1_sb_offset sh sz 2 = Some o3"
    by (simp_all add: v1_sb_offset_def o1_def o3_def)
  have offs: "md_offsets sh sz = [o0, o1, 0, o3]"
    by (simp add: md_offsets_def o0_def o1_def o3_def)
  have "dev_is_md xl sh dev w =
      (if dev_has_md_magic xl dev o0 then
         (1, if w then Some o0 else None, [Dev_get_size, Dev_open, Dev_read o0, Dev_close])
       else
         (case v1_loop xl sh dev sz 0 of
            (Some off, calls) \<Rightarrow>
              (1, if w then Some off else None,
               [Dev_get_size, Dev_open, Dev_read o0] @ calls @ [Dev_close])
          | (None, calls) \<Rightarrow>
              (0, None, [Dev_get_size, Dev_open, Dev_read o0] @ calls @ [Dev_close])))"
    using a by (simp add: dev_is_md_def md_consts n Let_def)
  also have "\<dots> = md_probe (dev_has_md_magic xl dev) w [o0, o1, 0, o3]"
    by (simp add: v1_loop_0 [OF v] md_probe_def)
  finally show "dev_is_md xl sh dev w = md_probe (dev_has_md_magic xl dev) w (md_offsets sh sz)"
    by (simp only: offs)
next
  show "dev_has_md_magic xl dev off \<longleftrightarrow>
        (\<exists>m. read32 dev off = Some m \<and> (m = xl MD_SB_MAGIC \<or> m = MD_SB_MAGIC))"
    by (cases "read32 dev off") (auto simp: dev_has_md_magic_def)
qed

theorem dev_is_md_probe_witness:
  "dev_is_md (\<lambda>x. x) 9 \<lparr>get_size = None, opens = True, read32 = (\<lambda>off. None)\<rparr> True
     = (- 1, None, [Dev_get_size])
   \<and> dev_is_md (\<lambda>x. x) 9 \<lparr>get_size = Some 100, opens = True, read32 = (\<lambda>off. None)\<rparr> True
     = (0, None, [Dev_get_size])
   \<and> dev_is_md (\<lambda>x. x) 9 \<lparr>get_size = Some 1000, opens = False, read32 = (\<lambda>off. None)\<rparr> True
     = (- 1, None, [Dev_get_size, Dev_open])
   \<and> dev_is_md (\<lambda>x. x) 9
        \<lparr>get_size = Some 1000, opens = True,
           read32 = (\<lambda>off. if off = 0 then Some MD_SB_MAGIC else Some 0)\<rparr> True
     = (1, Some 0,
        [Dev_get_size, Dev_open, Dev_read 393216, Dev_read 503808, Dev_read 0, Dev_close])"
  using
    dev_is_md_probe [of "\<lparr>get_size = None, opens = True, read32 = (\<lambda>off. None)\<rparr>"
      "\<lambda>x. x" 9 True 0 0]
    dev_is_md_probe [of "\<lparr>get_size = Some 100, opens = True, read32 = (\<lambda>off. None)\<rparr>"
      "\<lambda>x. x" 9 True 100 0]
    dev_is_md_probe [of "\<lparr>get_size = Some 1000, opens = False, read32 = (\<lambda>off. None)\<rparr>"
      "\<lambda>x. x" 9 True 1000 0]
    dev_is_md_probe [of "\<lparr>get_size = Some 1000, opens = True,
           read32 = (\<lambda>off. if off = 0 then Some MD_SB_MAGIC else Some 0)\<rparr>"
      "\<lambda>x. x" 9 True 1000 0]
  by (simp add: md_probe_def md_offsets_def dev_has_md_magic_def MD_SB_MAGIC_def)

text \<open>
  The claim as stated fails on a small device: every offset of this device of 100
  sectors holds the magic, and it is answered 0 without being opened.
\<close>

theorem dev_is_md_small_device:
  "dev_is_md (\<lambda>x. x) 9 \<lparr>get_size = Some 100, opens = True, read32 = (\<lambda>off. Some MD_SB_MAGIC)\<rparr> True
     = (0, None, [Dev_get_size])
   \<and> dev_has_md_magic (\<lambda>x. x) \<lparr>get_size = Some 100, opens = True, read32 = (\<lambda>off. Some MD_SB_MAGIC)\<rparr> 0"
  by (simp add: dev_is_md_def md_consts dev_has_md_magic_def)


end
